theory Spec2Isabelle
  imports Main "HOL-Library.Sublist" "HOL-Library.List_Lexorder" "HOL-Library.AList"
begin

section \<open>Text\<close>

text \<open>
  A Python \<open>str\<close> is a sequence of Unicode code points: \<open>len\<close>, slicing, \<open>in\<close>,
  \<open>str.replace\<close> and the \<open>re\<close> module all count code points. The scripts print and
  insert characters beyond Latin-1, so a character is modelled as its code point and a
  text as a list of code points. \<open>ustr\<close> embeds an ASCII literal.
\<close>

type_synonym str = "nat list"

definition ustr :: "string \<Rightarrow> str" where
  "ustr s = map of_char s"

definition NL :: nat where
  "NL = 10"

text \<open>Python's \<open>a in s\<close> on strings: \<open>a\<close> occurs in \<open>s\<close> as a contiguous slice.\<close>

fun py_in :: "str \<Rightarrow> str \<Rightarrow> bool" where
  "py_in a [] = (a = [])"
| "py_in a (c # cs) = (prefix a (c # cs) \<or> py_in a cs)"

text \<open>
  \<open>str.replace(a, b)\<close>: the non-overlapping occurrences of \<open>a\<close>, found left to right,
  are replaced by \<open>b\<close>. For the empty \<open>a\<close> Python puts \<open>b\<close> before every character
  and at the end.
\<close>

function py_replace :: "str \<Rightarrow> str \<Rightarrow> str \<Rightarrow> str" where
  "py_replace a b s =
     (if a = [] then b @ concat (map (\<lambda>c. c # b) s)
      else if s = [] then []
      else if prefix a s then b @ py_replace a b (drop (length a) s)
      else hd s # py_replace a b (tl s))"
  by pat_completeness auto
termination
  by (relation "measure (\<lambda>(a, b, s). length s)") auto

text \<open>The decimal rendering of a count in an f-string.\<close>

function show_nat :: "nat \<Rightarrow> str" where
  "show_nat n = (if n < 10 then [48 + n] else show_nat (n div 10) @ [48 + n mod 10])"
  by pat_completeness auto
termination
  by (relation "measure id") auto

section \<open>The regular expressions of the scripts\<close>

text \<open>
  The patterns of the four scripts are sequences of literals and of character classes
  under \<open>+\<close>, \<open>*\<close> and \<open>{n}\<close>, with \<open>$\<close> under \<open>re.MULTILINE\<close>, and at most one
  capture group, which is a prefix of the pattern. The character classes are those of
  \<open>re\<close> on \<open>str\<close> patterns: \<open>\s\<close> is Unicode white space, \<open>\d\<close> is the Unicode
  category Nd (the table of Unicode 14.0, the one of CPython 3.11).
\<close>

datatype cls = Space | Digit | NotNewline | Blank

definition unicode_space :: "nat \<Rightarrow> bool" where
  "unicode_space c \<longleftrightarrow>
     (9 \<le> c \<and> c \<le> 13) \<or> (28 \<le> c \<and> c \<le> 32) \<or> c = 133 \<or> c = 160 \<or> c = 5760 \<or>
     (8192 \<le> c \<and> c \<le> 8202) \<or> c = 8232 \<or> c = 8233 \<or> c = 8239 \<or> c = 8287 \<or>
     c = 12288"

definition decimal_ranges :: "(nat \<times> nat) list" where
  "decimal_ranges =
     [(48, 57), (1632, 1641), (1776, 1785), (1984, 1993), (2406, 2415), (2534, 2543),
      (2662, 2671), (2790, 2799), (2918, 2927), (3046, 3055), (3174, 3183), (3302, 3311),
      (3430, 3439), (3558, 3567), (3664, 3673), (3792, 3801), (3872, 3881), (4160, 4169),
      (4240, 4249), (6112, 6121), (6160, 6169), (6470, 6479), (6608, 6617), (6784, 6793),
      (6800, 6809), (6992, 7001), (7088, 7097), (7232, 7241), (7248, 7257),
      (42528, 42537), (43216, 43225), (43264, 43273), (43472, 43481), (43504, 43513),
      (43600, 43609), (44016, 44025), (65296, 65305), (66720, 66729), (68912, 68921),
      (69734, 69743), (69872, 69881), (69942, 69951), (70096, 70105), (70384, 70393),
      (70736, 70745), (70864, 70873), (71248, 71257), (71360, 71369), (71472, 71481),
      (71904, 71913), (72016, 72025), (72784, 72793), (73040, 73049), (73120, 73129),
      (92768, 92777), (92864, 92873), (93008, 93017), (120782, 120831),
      (123200, 123209), (123632, 123641), (125264, 125273), (130032, 130041)]"

definition unicode_decimal :: "nat \<Rightarrow> bool" where
  "unicode_decimal c = list_ex (\<lambda>(lo, hi). lo \<le> c \<and> c \<le> hi) decimal_ranges"

fun in_cls :: "cls \<Rightarrow> nat \<Rightarrow> bool" where
  "in_cls Space c = unicode_space c"
| "in_cls Digit c = unicode_decimal c"
| "in_cls NotNewline c = (c \<noteq> NL)"
| "in_cls Blank c = (c = 32)"

datatype atom =
    Lit str
  | Many1 cls
  | Many0 cls
  | Times nat cls
  | Eol

text \<open>
  The backtracking matcher, with the rest of the pattern as a continuation. A
  quantifier is greedy: it takes the longest run first and gives characters back one
  at a time while the continuation fails. \<open>Eol\<close> is \<open>$\<close> under \<open>re.MULTILINE\<close>: the
  end of the text or the position before a newline.
\<close>

fun greedy :: "cls \<Rightarrow> str \<Rightarrow> (str \<Rightarrow> 'a option) \<Rightarrow> 'a option" where
  "greedy k [] cont = cont []"
| "greedy k (c # cs) cont =
     (if in_cls k c
      then (case greedy k cs cont of Some r \<Rightarrow> Some r | None \<Rightarrow> cont (c # cs))
      else cont (c # cs))"

fun m_atom :: "atom \<Rightarrow> str \<Rightarrow> (str \<Rightarrow> 'a option) \<Rightarrow> 'a option" where
  "m_atom (Lit l) s cont = (if prefix l s then cont (drop (length l) s) else None)"
| "m_atom (Many0 k) s cont = greedy k s cont"
| "m_atom (Many1 k) s cont =
     (case s of [] \<Rightarrow> None | c # cs \<Rightarrow> if in_cls k c then greedy k cs cont else None)"
| "m_atom (Times n k) s cont =
     (if n \<le> length s \<and> list_all (in_cls k) (take n s) then cont (drop n s) else None)"
| "m_atom Eol s cont = (if s = [] \<or> hd s = NL then cont s else None)"

fun m_seq :: "atom list \<Rightarrow> str \<Rightarrow> (str \<Rightarrow> 'a option) \<Rightarrow> 'a option" where
  "m_seq [] s cont = cont s"
| "m_seq (a # as) s cont = m_atom a s (\<lambda>s'. m_seq as s' cont)"

text \<open>
  A pattern is the atoms of its capture group followed by the atoms after the group
  (a pattern without a group has all its atoms in the second part, a pattern that is
  one group has them in the first). A match at the start of \<open>s\<close> gives the text left
  after the group and the text left after the whole match.
\<close>

type_synonym pattern = "atom list \<times> atom list"

definition match_at :: "pattern \<Rightarrow> str \<Rightarrow> (str \<times> str) option" where
  "match_at p s = m_seq (fst p) s (\<lambda>s1. m_seq (snd p) s1 (\<lambda>s2. Some (s1, s2)))"

text \<open>\<open>re.search\<close>: the start index of the leftmost match.\<close>

fun re_search :: "pattern \<Rightarrow> str \<Rightarrow> nat option" where
  "re_search p [] = (case match_at p [] of Some _ \<Rightarrow> Some 0 | None \<Rightarrow> None)"
| "re_search p (c # cs) =
     (case match_at p (c # cs) of
        Some _ \<Rightarrow> Some 0
      | None \<Rightarrow> map_option Suc (re_search p cs))"

text \<open>
  \<open>re.sub\<close> and \<open>re.subn\<close>: scan from the left; at a match, emit the replacement (a
  function of group 1) and go on after the match; otherwise copy one character. No
  pattern of the scripts matches the empty text (each holds a non-empty literal), so
  the scan treats an empty match as no match.
\<close>

function re_sub :: "pattern \<Rightarrow> (str \<Rightarrow> str) \<Rightarrow> str \<Rightarrow> str" where
  "re_sub p r [] = []"
| "re_sub p r (c # cs) =
     (case match_at p (c # cs) of
        None \<Rightarrow> c # re_sub p r cs
      | Some (s1, s2) \<Rightarrow>
          if length s2 < length (c # cs)
          then r (take (length (c # cs) - length s1) (c # cs)) @ re_sub p r s2
          else c # re_sub p r cs)"
  by pat_completeness auto
termination
  by (relation "measure (\<lambda>(p, r, s). length s)") auto

text \<open>\<open>len(re.findall(p, s))\<close> and the count of \<open>re.subn\<close>: the number of matches.\<close>

function re_count :: "pattern \<Rightarrow> str \<Rightarrow> nat" where
  "re_count p [] = 0"
| "re_count p (c # cs) =
     (case match_at p (c # cs) of
        None \<Rightarrow> re_count p cs
      | Some (s1, s2) \<Rightarrow>
          if length s2 < length (c # cs) then Suc (re_count p s2) else re_count p cs)"
  by pat_completeness auto
termination
  by (relation "measure (\<lambda>(p, s). length s)") auto

section \<open>Files, output and outcomes\<close>

text \<open>
  The scripts work on the directory \<open>.github/workflows\<close>. It is either missing or a list
  of entries, file name and content, in the order in which the operating system
  enumerates them (the order of \<open>Path.glob\<close>, which does not sort). What a script does
  to the world is recorded in a trace, in order: each line printed, each file read, each
  file written. The content of a file is its text as \<open>read_text\<close> returns it and
  \<open>write_text\<close> is given it; every entry is a regular file.
\<close>

datatype event = Print str | Read str | Write str str

record world =
  files :: "(str \<times> str) list option"
  trace :: "event list"

datatype outcome = Completed world | SysExit nat world | Uncaught

text \<open>The exit status of the process: an uncaught exception ends Python with status 1.\<close>

fun exit_status :: "outcome \<Rightarrow> nat" where
  "exit_status (Completed w) = 0"
| "exit_status (SysExit n w) = n"
| "exit_status Uncaught = 1"

definition py_print :: "str \<Rightarrow> world \<Rightarrow> world" where
  "py_print line w = w\<lparr>trace := trace w @ [Print line]\<rparr>"

text \<open>
  \<open>Path.exists\<close>, and \<open>Path.glob('*.yml')\<close>: the entries whose name ends in \<open>.yml\<close>, in
  enumeration order; over a missing directory \<open>glob\<close> yields nothing and raises nothing.
\<close>

definition dir_exists :: "world \<Rightarrow> bool" where
  "dir_exists w = (files w \<noteq> None)"

definition glob_yml :: "world \<Rightarrow> str list" where
  "glob_yml w =
     (case files w of None \<Rightarrow> [] | Some d \<Rightarrow> filter (suffix (ustr ''.yml'')) (map fst d))"

text \<open>
  \<open>read_text\<close> and \<open>write_text\<close> (and \<open>open\<close> with \<open>read\<close> or \<open>write\<close>); \<open>None\<close> is the
  exception raised for a missing file or directory.
\<close>

definition read_text :: "str \<Rightarrow> world \<Rightarrow> (str \<times> world) option" where
  "read_text name w =
     (case files w of
        None \<Rightarrow> None
      | Some d \<Rightarrow>
          (case map_of d name of
             None \<Rightarrow> None
           | Some content \<Rightarrow> Some (content, w\<lparr>trace := trace w @ [Read name]\<rparr>)))"

definition write_text :: "str \<Rightarrow> str \<Rightarrow> world \<Rightarrow> world option" where
  "write_text name content w =
     (case files w of
        None \<Rightarrow> None
      | Some d \<Rightarrow>
          Some (w\<lparr>files := Some (AList.update name content d),
                 trace := trace w @ [Write name content]\<rparr>))"

section \<open>scripts/maintenance/fix-github-workflows.py\<close>

definition gh_PNPM_SETUP :: str where
  "gh_PNPM_SETUP =
     ustr ''      - name: Install pnpm'' @ [NL] @
     ustr ''        uses: pnpm/action-setup@v4'' @ [NL] @
     ustr ''        with:'' @ [NL] @
     ustr ''          version: 9'' @ [NL] @ [NL]"

definition cache_npm :: str where
  "cache_npm = ustr ''cache: '' @ [39] @ ustr ''npm'' @ [39]"

definition cache_pnpm :: str where
  "cache_pnpm = ustr ''cache: '' @ [39] @ ustr ''pnpm'' @ [39]"

definition has_pnpm_setup :: "str \<Rightarrow> bool" where
  "has_pnpm_setup content = py_in (ustr ''pnpm/action-setup'') content"

definition needs_pnpm_setup :: "str \<Rightarrow> bool" where
  "needs_pnpm_setup content =
     (py_in cache_npm content \<or> py_in (ustr ''run: npm ci'') content \<or>
      py_in (ustr ''run: npm install'') content)"

text \<open>The pattern \<open>(\s+- name: Setup Node\.js[^\n]*\n\s+uses: actions/setup-node@)\<close>.\<close>

definition setup_node_pattern :: pattern where
  "setup_node_pattern =
     ([Many1 Space, Lit (ustr ''- name: Setup Node.js''), Many0 NotNewline, Lit [NL],
       Many1 Space, Lit (ustr ''uses: actions/setup-node@'')], [])"

definition add_pnpm_setup :: "str \<Rightarrow> world \<Rightarrow> str \<times> world" where
  "add_pnpm_setup content w =
     (case re_search setup_node_pattern content of
        None \<Rightarrow>
          (content,
           py_print (ustr ''   '' @ [9888, 65039] @ ustr ''  Could not find '' @ [39] @
                     ustr ''Setup Node.js'' @ [39] @ ustr '' step to insert pnpm setup'') w)
      | Some pos \<Rightarrow> (take pos content @ gh_PNPM_SETUP @ drop pos content, w))"

text \<open>The patterns \<open>run: npm ci$\<close> and \<open>run: npm install$\<close>, under \<open>re.MULTILINE\<close>.\<close>

definition npm_ci_pattern :: pattern where
  "npm_ci_pattern = ([], [Lit (ustr ''run: npm ci''), Eol])"

definition npm_install_pattern :: pattern where
  "npm_install_pattern = ([], [Lit (ustr ''run: npm install''), Eol])"

text \<open>
  The four numbered steps of \<open>fix_workflow\<close>, each on the current content and the
  \<open>modified\<close> flag.
\<close>

definition step_cache :: "str \<times> bool \<Rightarrow> str \<times> bool" where
  "step_cache cm =
     (case cm of (content, modified) \<Rightarrow>
        if py_in cache_npm content
        then (py_replace cache_npm cache_pnpm content, True)
        else (content, modified))"

definition step_npm_ci :: "str \<times> bool \<Rightarrow> str \<times> bool" where
  "step_npm_ci cm =
     (case cm of (content, modified) \<Rightarrow>
        if py_in (ustr ''run: npm ci'') content
        then (re_sub npm_ci_pattern (\<lambda>g. ustr ''run: pnpm install --frozen-lockfile'') content,
              True)
        else (content, modified))"

definition step_npm_install :: "str \<times> bool \<Rightarrow> str \<times> bool" where
  "step_npm_install cm =
     (case cm of (content, modified) \<Rightarrow>
        if re_search npm_install_pattern content \<noteq> None
        then (re_sub npm_install_pattern (\<lambda>g. ustr ''run: pnpm install'') content, True)
        else (content, modified))"

definition step_setup :: "str \<times> bool \<Rightarrow> world \<Rightarrow> (str \<times> bool) \<times> world" where
  "step_setup cm w =
     (case cm of (content, modified) \<Rightarrow>
        if \<not> has_pnpm_setup content
        then (case add_pnpm_setup content w of (content', w') \<Rightarrow> ((content', True), w'))
        else ((content, modified), w))"

text \<open>
  \<open>fix_workflow\<close>. The backup path is \<open>file_path.with_suffix(file_path.suffix + '.bak')\<close>,
  which for a name matched by \<open>*.yml\<close> is the name followed by \<open>.bak\<close>.
\<close>

definition fix_workflow :: "str \<Rightarrow> world \<Rightarrow> (bool \<times> world) option" where
  "fix_workflow file_path w =
     (case read_text file_path w of
        None \<Rightarrow> None
      | Some (original_content, w0) \<Rightarrow>
          if \<not> needs_pnpm_setup original_content then Some (False, w0)
          else
            (case step_setup
                    (step_npm_install (step_npm_ci (step_cache (original_content, False)))) w0 of
               ((content, modified), w1) \<Rightarrow>
                 if modified
                 then
                   (case write_text (file_path @ ustr ''.bak'') original_content w1 of
                      None \<Rightarrow> None
                    | Some w2 \<Rightarrow>
                        (case write_text file_path content w2 of
                           None \<Rightarrow> None
                         | Some w3 \<Rightarrow> Some (True, w3)))
                 else Some (False, w1)))"

fun gh_loop :: "str list \<Rightarrow> world \<Rightarrow> nat \<Rightarrow> nat \<Rightarrow> (world \<times> nat \<times> nat) option" where
  "gh_loop [] w fixed_count skipped_count = Some (w, fixed_count, skipped_count)"
| "gh_loop (filename # rest) w fixed_count skipped_count =
     (case fix_workflow filename (py_print (ustr ''Processing: '' @ filename) w) of
        None \<Rightarrow> None
      | Some (fixed, w1) \<Rightarrow>
          if fixed
          then gh_loop rest (py_print (ustr ''   '' @ [9989] @ ustr '' Fixed'' @ [NL]) w1)
                 (fixed_count + 1) skipped_count
          else gh_loop rest
                 (py_print (ustr ''   '' @ [9197, 65039] @
                            ustr ''  Skipped (already uses pnpm or no npm commands)'' @ [NL]) w1)
                 fixed_count (skipped_count + 1))"

definition gh_main :: "world \<Rightarrow> outcome" where
  "gh_main w =
     (let w0 = py_print ([128295] @ ustr '' Fixing GitHub Actions workflows to use pnpm...'' @ [NL]) w
      in if \<not> dir_exists w0
         then SysExit 1 (py_print ([10060] @ ustr '' Error: .github/workflows not found'') w0)
         else
           (case gh_loop (sort (glob_yml w0)) w0 0 0 of
              None \<Rightarrow> Uncaught
            | Some (w1, fixed_count, skipped_count) \<Rightarrow>
                Completed
                  (py_print (replicate 70 9473)
                    (py_print ([NL, 128193] @ ustr '' Backup files created with .bak extension'')
                      (py_print ([9197, 65039] @ ustr ''  Skipped: '' @ show_nat skipped_count @
                                 ustr '' workflows'')
                        (py_print ([9989] @ ustr '' Fixed: '' @ show_nat fixed_count @
                                   ustr '' workflows'')
                          (py_print (replicate 70 9473) w1)))))))"

section \<open>scripts/fix-all-pnpm-workflows.py\<close>

text \<open>
  The patterns \<open>pnpm/action-setup@v4\<close> and
  \<open>(pnpm/action-setup@v\d+\s+with:\s+version:)\s*9\<close>.
\<close>

definition all_pattern1 :: pattern where
  "all_pattern1 = ([], [Lit (ustr ''pnpm/action-setup@v4'')])"

definition all_pattern2 :: pattern where
  "all_pattern2 =
     ([Lit (ustr ''pnpm/action-setup@v''), Many1 Digit, Many1 Space, Lit (ustr ''with:''),
       Many1 Space, Lit (ustr ''version:'')],
      [Many0 Space, Lit (ustr ''9'')])"

text \<open>
  The two fixes of \<open>fix_workflow_file\<close>, each on the current content and the list of
  changes; both count their matches in the original content.
\<close>

definition all_fix1 :: "str \<Rightarrow> str \<times> str list \<Rightarrow> str \<times> str list" where
  "all_fix1 original_content cc =
     (case cc of (content, changes) \<Rightarrow>
        if re_search all_pattern1 content \<noteq> None
        then (re_sub all_pattern1 (\<lambda>g. ustr ''pnpm/action-setup@v2'') content,
              changes @
              [ustr ''Updated action version v4 '' @ [8594] @ ustr '' v2 ('' @
               show_nat (re_count all_pattern1 original_content) @ ustr '' occurrences)''])
        else (content, changes))"

definition all_fix2 :: "str \<Rightarrow> str \<times> str list \<Rightarrow> str \<times> str list" where
  "all_fix2 original_content cc =
     (case cc of (content, changes) \<Rightarrow>
        if re_search all_pattern2 content \<noteq> None
        then (re_sub all_pattern2 (\<lambda>g. g @ ustr '' 10'') content,
              changes @
              [ustr ''Updated pnpm version 9 '' @ [8594] @ ustr '' 10 ('' @
               show_nat (re_count all_pattern2 original_content) @ ustr '' occurrences)''])
        else (content, changes))"

definition all_rules :: "str \<Rightarrow> str \<times> str list" where
  "all_rules original_content =
     all_fix2 original_content (all_fix1 original_content (original_content, []))"

definition all_fix_workflow_file :: "str \<Rightarrow> world \<Rightarrow> ((bool \<times> str list) \<times> world) option" where
  "all_fix_workflow_file file_path w =
     (case read_text file_path w of
        None \<Rightarrow> None
      | Some (original_content, w0) \<Rightarrow>
          (case all_rules original_content of
             (content, changes) \<Rightarrow>
               if content \<noteq> original_content
               then (case write_text file_path content w0 of
                       None \<Rightarrow> None
                     | Some w1 \<Rightarrow> Some ((True, changes), w1))
               else Some ((False, []), w0)))"

definition print_all :: "str list \<Rightarrow> world \<Rightarrow> world" where
  "print_all ls w = fold py_print ls w"

fun all_loop :: "str list \<Rightarrow> world \<Rightarrow> str list \<Rightarrow> (world \<times> str list) option" where
  "all_loop [] w modified = Some (w, modified)"
| "all_loop (file # rest) w modified =
     (case all_fix_workflow_file file w of
        None \<Rightarrow> None
      | Some ((success, changes), w1) \<Rightarrow>
          if success
          then all_loop rest
                 (print_all (map (\<lambda>change. ustr ''  - '' @ change) changes)
                    (py_print ([10003] @ ustr '' '' @ file) w1))
                 (modified @ [file])
          else all_loop rest
                 (py_print ([8226] @ ustr '' '' @ file @ ustr '' - no changes needed'') w1)
                 modified)"

definition all_main :: "world \<Rightarrow> outcome" where
  "all_main w =
     (let w0 = py_print ([128295] @ ustr '' Fixing pnpm configuration in all workflow files...'' @
                         [NL]) w;
          workflow_files = glob_yml w0;
          w1 = py_print (ustr ''Found '' @ show_nat (length workflow_files) @
                         ustr '' workflow files'' @ [NL]) w0
      in case all_loop (sort workflow_files) w1 [] of
           None \<Rightarrow> Uncaught
         | Some (w2, modified) \<Rightarrow>
             Completed
               (py_print
                  (if modified \<noteq> []
                   then [128221] @ ustr '' Modified '' @ show_nat (length modified) @ ustr '' files''
                   else [128221] @ ustr '' No files needed modifications'')
                  (py_print ([9989] @ ustr '' Processed '' @ show_nat (length workflow_files) @
                             ustr '' workflow files'')
                     (py_print ([NL] @ replicate 80 61) w2))))"

section \<open>scripts/update-pnpm-version.py\<close>

text \<open>Discovery reads every \<open>*.yml\<close> file and keeps those that hold the marker.\<close>

fun find_files_with :: "str \<Rightarrow> str list \<Rightarrow> world \<Rightarrow> str list \<Rightarrow> (str list \<times> world) option" where
  "find_files_with marker [] w acc = Some (acc, w)"
| "find_files_with marker (file # rest) w acc =
     (case read_text file w of
        None \<Rightarrow> None
      | Some (content, w1) \<Rightarrow>
          find_files_with marker rest w1 (if py_in marker content then acc @ [file] else acc))"

definition upd_find_workflow_files :: "world \<Rightarrow> (str list \<times> world) option" where
  "upd_find_workflow_files w = find_files_with (ustr ''pnpm/action-setup'') (glob_yml w) w []"

text \<open>The pattern \<open>(uses: pnpm/action-setup@v2\s+with:\s+version:)\s*8\<close>.\<close>

definition upd_pattern :: pattern where
  "upd_pattern =
     ([Lit (ustr ''uses: pnpm/action-setup@v2''), Many1 Space, Lit (ustr ''with:''),
       Many1 Space, Lit (ustr ''version:'')],
      [Many0 Space, Lit (ustr ''8'')])"

definition update_pnpm_version :: "str \<Rightarrow> world \<Rightarrow> ((bool \<times> str) \<times> world) option" where
  "update_pnpm_version file_path w =
     (case read_text file_path w of
        None \<Rightarrow> None
      | Some (content, w0) \<Rightarrow>
          (let new_content = re_sub upd_pattern (\<lambda>g. g @ ustr '' 10'') content
           in if new_content \<noteq> content
              then (case write_text file_path new_content w0 of
                      None \<Rightarrow> None
                    | Some w1 \<Rightarrow>
                        Some ((True,
                               ustr ''Updated pnpm version 8 '' @ [8594] @ ustr '' 10 ('' @
                               show_nat (re_count upd_pattern content) @ ustr '' locations)''),
                              w1))
              else Some ((False,
                          ustr ''No version 8 found (already updated or different version)''),
                         w0)))"

text \<open>
  The loop of \<open>main\<close>, the same in \<open>update-pnpm-version.py\<close> and \<open>fix-pnpm-workflows.py\<close>
  but for the function called on each file.
\<close>

fun report_loop ::
  "(str \<Rightarrow> world \<Rightarrow> ((bool \<times> str) \<times> world) option) \<Rightarrow> str list \<Rightarrow> world \<Rightarrow> str list \<Rightarrow>
   (world \<times> str list) option" where
  "report_loop f [] w modified = Some (w, modified)"
| "report_loop f (file # rest) w modified =
     (case f file (py_print (ustr ''Processing: '' @ file) w) of
        None \<Rightarrow> None
      | Some ((success, message), w1) \<Rightarrow>
          report_loop f rest
            (py_print (ustr ''  '' @ [if success then 10003 else 8226] @ ustr '' '' @ message) w1)
            (if success then modified @ [file] else modified))"

definition upd_main :: "world \<Rightarrow> outcome" where
  "upd_main w =
     (let w0 = py_print ([128295] @ ustr '' Updating pnpm version in workflow files...'' @ [NL]) w
      in case upd_find_workflow_files w0 of
           None \<Rightarrow> Uncaught
         | Some (workflow_files, w1) \<Rightarrow>
             (case report_loop update_pnpm_version workflow_files
                     (py_print (ustr ''Found '' @ show_nat (length workflow_files) @
                                ustr '' workflow files using pnpm/action-setup'' @ [NL]) w1) [] of
                None \<Rightarrow> Uncaught
              | Some (w2, modified) \<Rightarrow>
                  (let w3 = py_print ([NL, 9989] @ ustr '' Processed '' @
                                      show_nat (length workflow_files) @ ustr '' workflow files'') w2
                   in if modified \<noteq> []
                      then Completed
                             (print_all (map (\<lambda>name. ustr ''  - '' @ name) modified)
                                (py_print (ustr ''Modified '' @ show_nat (length modified) @
                                           ustr '' files:'' @ [NL]) w3))
                      else Completed (py_print (ustr ''No files needed updates'') w3))))"

section \<open>scripts/fix-pnpm-workflows.py\<close>

definition pnpm_PNPM_SETUP :: str where
  "pnpm_PNPM_SETUP =
     ustr ''      - name: '' @ [128230] @ ustr '' Setup pnpm'' @ [NL] @
     ustr ''        uses: pnpm/action-setup@v2'' @ [NL] @
     ustr ''        with:'' @ [NL] @
     ustr ''          version: 8'' @ [NL] @ [NL]"

definition pnpm_find_workflow_files :: "world \<Rightarrow> (str list \<times> world) option" where
  "pnpm_find_workflow_files w = find_files_with cache_pnpm (glob_yml w) w []"

text \<open>
  The pattern \<open>([ ]{6}- name: [^\n]+Setup Node[^\n]*\n[ ]{8}uses: actions/setup-node@v4)\<close>.
\<close>

definition pnpm_pattern :: pattern where
  "pnpm_pattern =
     ([Times 6 Blank, Lit (ustr ''- name: ''), Many1 NotNewline, Lit (ustr ''Setup Node''),
       Many0 NotNewline, Lit [NL], Times 8 Blank, Lit (ustr ''uses: actions/setup-node@v4'')],
      [])"

definition pnpm_fix_workflow_file :: "str \<Rightarrow> world \<Rightarrow> ((bool \<times> str) \<times> world) option" where
  "pnpm_fix_workflow_file file_path w =
     (case read_text file_path w of
        None \<Rightarrow> None
      | Some (content, w0) \<Rightarrow>
          if py_in (ustr ''pnpm/action-setup'') content
          then Some ((False, ustr ''Already has pnpm setup''), w0)
          else
            (let new_content = re_sub pnpm_pattern (\<lambda>g. pnpm_PNPM_SETUP @ g) content;
                 count = re_count pnpm_pattern content
             in if count > 0
                then (case write_text file_path new_content w0 of
                        None \<Rightarrow> None
                      | Some w1 \<Rightarrow>
                          Some ((True,
                                 ustr ''Added pnpm setup ('' @ show_nat count @
                                 ustr '' locations)''),
                                w1))
                else Some ((False, ustr ''No setup-node found''), w0)))"

definition pnpm_main :: "world \<Rightarrow> outcome" where
  "pnpm_main w =
     (let w0 = py_print ([128295] @ ustr '' Fixing pnpm setup in workflow files...'' @ [NL]) w
      in case pnpm_find_workflow_files w0 of
           None \<Rightarrow> Uncaught
         | Some (workflow_files, w1) \<Rightarrow>
             (case report_loop pnpm_fix_workflow_file workflow_files
                     (py_print (ustr ''Found '' @ show_nat (length workflow_files) @
                                ustr '' workflow files using pnpm'' @ [NL]) w1) [] of
                None \<Rightarrow> Uncaught
              | Some (w2, modified) \<Rightarrow>
                  Completed
                    (print_all (map (\<lambda>name. ustr ''  - '' @ name) modified)
                       (py_print (ustr ''Modified '' @ show_nat (length modified) @
                                  ustr '' files:'' @ [NL])
                          (py_print ([NL, 9989] @ ustr '' Processed '' @
                                     show_nat (length workflow_files) @ ustr '' workflow files'')
                             w2)))))"

section \<open>Observations on a run\<close>

text \<open>The files read, in the order in which they were read.\<close>

fun reads :: "event list \<Rightarrow> str list" where
  "reads [] = []"
| "reads (Read name # es) = name # reads es"
| "reads (Print line # es) = reads es"
| "reads (Write name content # es) = reads es"

text \<open>The names present in the directory, and the content a name holds.\<close>

definition names :: "world \<Rightarrow> str set" where
  "names w = (case files w of None \<Rightarrow> {} | Some d \<Rightarrow> fst ` set d)"

definition content_of :: "world \<Rightarrow> str \<Rightarrow> str" where
  "content_of w name =
     (case files w of
        None \<Rightarrow> []
      | Some d \<Rightarrow> (case map_of d name of None \<Rightarrow> [] | Some c \<Rightarrow> c))"

text \<open>
  \<open>extends w w' rs\<close>: from \<open>w\<close> to \<open>w'\<close> no name left the directory, the directory did not
  vanish, and exactly the files \<open>rs\<close> were read, in this order.
\<close>

definition extends :: "world \<Rightarrow> world \<Rightarrow> str list \<Rightarrow> bool" where
  "extends w w' rs \<longleftrightarrow>
     names w \<subseteq> names w' \<and> (files w = None) = (files w' = None) \<and>
     reads (trace w') = reads (trace w) @ rs"

section \<open>Lines\<close>

text \<open>
  The lines of a text, as \<open>s.split('\n')\<close> gives them; steps 2 and 3 of \<open>fix_workflow\<close>
  taken alone (the substitutions of \<open>npm ci\<close> and \<open>npm install\<close>, without steps 1 and 4);
  and what these two substitutions do to one line.
\<close>

fun split_lines :: "str \<Rightarrow> str list" where
  "split_lines [] = [[]]"
| "split_lines (c # cs) =
     (if c = NL then [] # split_lines cs
      else (case split_lines cs of [] \<Rightarrow> [[c]] | l # ls \<Rightarrow> (c # l) # ls))"

definition steps_2_3 :: "str \<Rightarrow> str" where
  "steps_2_3 content = fst (step_npm_install (step_npm_ci (content, False)))"

definition line_sub :: "str \<Rightarrow> str \<Rightarrow> str \<Rightarrow> str" where
  "line_sub old new l =
     (if suffix old l then take (length l - length old) l @ new else l)"

definition rewrite_line :: "str \<Rightarrow> str" where
  "rewrite_line l =
     (if suffix (ustr ''run: npm ci'') l
      then take (length l - 11) l @ ustr ''run: pnpm install --frozen-lockfile''
      else if suffix (ustr ''run: npm install'') l
      then take (length l - 16) l @ ustr ''run: pnpm install''
      else l)"

section \<open>Context windows\<close>

text \<open>
  The texts an atom can match, whatever follows.
\<close>

fun atom_lang :: "atom \<Rightarrow> str \<Rightarrow> bool" where
  "atom_lang (Lit l) x = (x = l)"
| "atom_lang (Many1 k) x = (x \<noteq> [] \<and> list_all (in_cls k) x)"
| "atom_lang (Many0 k) x = list_all (in_cls k) x"
| "atom_lang (Times n k) x = (length x = n \<and> list_all (in_cls k) x)"
| "atom_lang Eol x = (x = [])"

text \<open>
  The context window of the version bump in \<open>fix-all-pnpm-workflows.py\<close>: the anchor
  \<open>pnpm/action-setup@v\<close> with its digits, white space, \<open>with:\<close>, white space,
  \<open>version:\<close>. In \<open>update-pnpm-version.py\<close> the anchor is \<open>uses: pnpm/action-setup@v2\<close>.
\<close>

definition all_window :: "str \<Rightarrow> bool" where
  "all_window g \<longleftrightarrow>
     (\<exists>ds w1 w2. ds \<noteq> [] \<and> list_all unicode_decimal ds \<and>
        w1 \<noteq> [] \<and> list_all unicode_space w1 \<and> w2 \<noteq> [] \<and> list_all unicode_space w2 \<and>
        g = ustr ''pnpm/action-setup@v'' @ ds @ w1 @ ustr ''with:'' @ w2 @ ustr ''version:'')"

definition upd_window :: "str \<Rightarrow> bool" where
  "upd_window g \<longleftrightarrow>
     (\<exists>w1 w2. w1 \<noteq> [] \<and> list_all unicode_space w1 \<and> w2 \<noteq> [] \<and> list_all unicode_space w2 \<and>
        g = ustr ''uses: pnpm/action-setup@v2'' @ w1 @ ustr ''with:'' @ w2 @ ustr ''version:'')"

text \<open>
  \<open>rewritten window target s t\<close>: the text \<open>t\<close> is \<open>s\<close> copied character by character,
  except that at some places where a window is followed by white space and the target
  digit, the white space and the digit are replaced by a blank and \<open>10\<close>.
\<close>

inductive rewritten :: "(str \<Rightarrow> bool) \<Rightarrow> nat \<Rightarrow> str \<Rightarrow> str \<Rightarrow> bool"
  for window :: "str \<Rightarrow> bool" and target :: nat where
  finish: "rewritten window target [] []"
| copy: "rewritten window target s t \<Longrightarrow> rewritten window target (c # s) (c # t)"
| bump: "window g \<Longrightarrow> list_all unicode_space ws \<Longrightarrow> rewritten window target s t \<Longrightarrow>
         rewritten window target (g @ ws @ target # s) (g @ ustr '' 10'' @ t)"

section \<open>Occurrences\<close>

text \<open>
  The number of positions of \<open>s\<close> at which \<open>a\<close> occurs; and \<open>overlaps x y\<close>: an
  occurrence of \<open>y\<close> can start inside an occurrence of \<open>x\<close>, after its first character
  (\<open>y\<close> is a prefix of a proper suffix of \<open>x\<close>, or such a suffix is a prefix of \<open>y\<close>).
\<close>

fun occ :: "str \<Rightarrow> str \<Rightarrow> nat" where
  "occ a [] = 0"
| "occ a (c # cs) = (if prefix a (c # cs) then 1 else 0) + occ a cs"

fun overlaps :: "str \<Rightarrow> str \<Rightarrow> bool" where
  "overlaps [] y = False"
| "overlaps (c # cs) y = (cs \<noteq> [] \<and> (prefix cs y \<or> prefix y cs) \<or> overlaps cs y)"

text \<open>Two literals whose occurrences in a text can never share a character.\<close>

definition separate :: "str \<Rightarrow> str \<Rightarrow> bool" where
  "separate a b \<longleftrightarrow>
     a \<noteq> [] \<and> b \<noteq> [] \<and> \<not> prefix a b \<and> \<not> prefix b a \<and>
     \<not> overlaps a a \<and> \<not> overlaps b b \<and> \<not> overlaps a b \<and> \<not> overlaps b a"

section \<open>Properties\<close>

declare py_replace.simps [simp del]

declare show_nat.simps [simp del]

lemmas text_eval = ustr_def NL_def cache_npm_def cache_pnpm_def

lemmas regex_eval = match_at_def unicode_space_def unicode_decimal_def decimal_ranges_def

lemmas io_eval = read_text_def write_text_def py_print_def print_all_def glob_yml_def
  dir_exists_def suffix_to_prefix

text \<open>
  C8. A file whose text holds none of \<open>cache: 'npm'\<close>, \<open>run: npm ci\<close> and
  \<open>run: npm install\<close> is read and nothing else: \<open>fix_workflow\<close> returns \<open>False\<close> before any
  rule runs, nothing is written or printed, and the directory is left as it was.
\<close>

theorem gated_rewrite_untouched:
  assumes "files w = Some d"
    and "map_of d file_path = Some content"
    and "\<not> needs_pnpm_setup content"
  shows "fix_workflow file_path w = Some (False, w\<lparr>trace := trace w @ [Read file_path]\<rparr>)"
  using assms by (simp add: fix_workflow_def read_text_def)

theorem gated_rewrite_untouched_witness:
  "files \<lparr>files = Some [(ustr ''ci.yml'', ustr ''run: pnpm test'')], trace = []\<rparr>
     = Some [(ustr ''ci.yml'', ustr ''run: pnpm test'')]
   \<and> map_of [(ustr ''ci.yml'', ustr ''run: pnpm test'')] (ustr ''ci.yml'')
     = Some (ustr ''run: pnpm test'')
   \<and> \<not> needs_pnpm_setup (ustr ''run: pnpm test'')
   \<and> fix_workflow (ustr ''ci.yml'')
        \<lparr>files = Some [(ustr ''ci.yml'', ustr ''run: pnpm test'')], trace = []\<rparr>
     = Some (False, \<lparr>files = Some [(ustr ''ci.yml'', ustr ''run: pnpm test'')],
                     trace = [Read (ustr ''ci.yml'')]\<rparr>)"
proof -
  have n: "\<not> needs_pnpm_setup (ustr ''run: pnpm test'')"
    by (simp add: needs_pnpm_setup_def text_eval)
  show ?thesis
    using n gated_rewrite_untouched
      [of "\<lparr>files = Some [(ustr ''ci.yml'', ustr ''run: pnpm test'')], trace = []\<rparr>"
          "[(ustr ''ci.yml'', ustr ''run: pnpm test'')]" "ustr ''ci.yml''"
          "ustr ''run: pnpm test''"]
    by simp
qed

text \<open>
  C2, as stated, fails: \<open>fix-all-pnpm-workflows.py\<close> has no check for the directory, and
  \<open>glob\<close> over a missing directory yields no file, so the run prints its summary for zero
  files and completes with status 0.
\<close>

theorem missing_directory_counterexample:
  "all_main \<lparr>files = None, trace = []\<rparr>
   = Completed
       \<lparr>files = None,
        trace =
          [Print ([128295] @ ustr '' Fixing pnpm configuration in all workflow files...'' @ [NL]),
           Print (ustr ''Found 0 workflow files'' @ [NL]),
           Print ([NL] @ replicate 80 61),
           Print ([9989] @ ustr '' Processed 0 workflow files''),
           Print ([128221] @ ustr '' No files needed modifications'')]\<rparr>
   \<and> exit_status (all_main \<lparr>files = None, trace = []\<rparr>) = 0"
  by (simp add: all_main_def io_eval text_eval show_nat.simps)

text \<open>
  C2, amended. When \<open>.github/workflows\<close> is missing, \<open>fix-github-workflows.py\<close> prints
  its banner and the message that the directory was not found and exits with status 1,
  before any discovery; the other three scripts discover no file, print their summary for
  zero files and complete normally. No script reads or writes a file.
\<close>

theorem missing_directory:
  assumes "files w = None"
  shows "gh_main w
         = SysExit 1
             (w\<lparr>trace := trace w @
                [Print ([128295] @ ustr '' Fixing GitHub Actions workflows to use pnpm...'' @ [NL]),
                 Print ([10060] @ ustr '' Error: .github/workflows not found'')]\<rparr>)
         \<and> all_main w
         = Completed
             (w\<lparr>trace := trace w @
                [Print ([128295] @ ustr '' Fixing pnpm configuration in all workflow files...'' @
                        [NL]),
                 Print (ustr ''Found '' @ show_nat 0 @ ustr '' workflow files'' @ [NL]),
                 Print ([NL] @ replicate 80 61),
                 Print ([9989] @ ustr '' Processed '' @ show_nat 0 @ ustr '' workflow files''),
                 Print ([128221] @ ustr '' No files needed modifications'')]\<rparr>)
         \<and> upd_main w
         = Completed
             (w\<lparr>trace := trace w @
                [Print ([128295] @ ustr '' Updating pnpm version in workflow files...'' @ [NL]),
                 Print (ustr ''Found '' @ show_nat 0 @
                        ustr '' workflow files using pnpm/action-setup'' @ [NL]),
                 Print ([NL, 9989] @ ustr '' Processed '' @ show_nat 0 @ ustr '' workflow files''),
                 Print (ustr ''No files needed updates'')]\<rparr>)
         \<and> pnpm_main w
         = Completed
             (w\<lparr>trace := trace w @
                [Print ([128295] @ ustr '' Fixing pnpm setup in workflow files...'' @ [NL]),
                 Print (ustr ''Found '' @ show_nat 0 @ ustr '' workflow files using pnpm'' @ [NL]),
                 Print ([NL, 9989] @ ustr '' Processed '' @ show_nat 0 @ ustr '' workflow files''),
                 Print (ustr ''Modified '' @ show_nat 0 @ ustr '' files:'' @ [NL])]\<rparr>)"
  using assms
  by (simp add: gh_main_def all_main_def upd_main_def pnpm_main_def io_eval
      upd_find_workflow_files_def pnpm_find_workflow_files_def)

theorem missing_directory_witness:
  "files \<lparr>files = None, trace = []\<rparr> = None
   \<and> exit_status (gh_main \<lparr>files = None, trace = []\<rparr>) = 1
   \<and> exit_status (all_main \<lparr>files = None, trace = []\<rparr>) = 0
   \<and> exit_status (upd_main \<lparr>files = None, trace = []\<rparr>) = 0
   \<and> exit_status (pnpm_main \<lparr>files = None, trace = []\<rparr>) = 0"
  using missing_directory [of "\<lparr>files = None, trace = []\<rparr>"]
  by simp

subsection \<open>The order in which files are processed\<close>

lemma reads_append: "reads (es @ fs) = reads es @ reads fs"
  by (induction es rule: reads.induct) auto

lemma reads_print: "reads (trace (py_print l w)) = reads (trace w)"
  by (simp add: py_print_def reads_append)

lemma names_print: "names (py_print l w) = names w"
  by (simp add: py_print_def names_def)

lemma files_print: "files (py_print l w) = files w"
  by (simp add: py_print_def)

lemma reads_print_all: "reads (trace (print_all ls w)) = reads (trace w)"
  unfolding print_all_def by (induction ls arbitrary: w) (auto simp: reads_print)

lemma names_print_all: "names (print_all ls w) = names w"
  unfolding print_all_def by (induction ls arbitrary: w) (auto simp: names_print)

lemma read_text_present:
  assumes "name \<in> names w"
  shows "\<exists>c. read_text name w = Some (c, w\<lparr>trace := trace w @ [Read name]\<rparr>)"
proof -
  from assms obtain d where d: "files w = Some d" "name \<in> fst ` set d"
    by (auto simp: names_def split: option.splits)
  then obtain c where "map_of d name = Some c"
    by (metis domD dom_map_of_conv_image_fst)
  with d show ?thesis by (simp add: read_text_def)
qed

lemma extends_refl: "extends w w []"
  by (simp add: extends_def)

lemma extends_trans: "extends w w' rs \<Longrightarrow> extends w' w'' rs' \<Longrightarrow> extends w w'' (rs @ rs')"
  by (auto simp: extends_def)

lemma extends_print: "extends w (py_print l w) []"
  by (simp add: extends_def py_print_def names_def reads_append)

lemma extends_print_all: "extends w (print_all ls w) []"
  unfolding print_all_def
proof (induction ls arbitrary: w)
  case Nil
  show ?case by (simp add: extends_refl)
next
  case (Cons l ls)
  from extends_trans [OF extends_print Cons.IH] show ?case by simp
qed

lemma extends_read: "extends w (w\<lparr>trace := trace w @ [Read name]\<rparr>) [name]"
  by (simp add: extends_def names_def reads_append)

lemma write_text_present:
  assumes "files w \<noteq> None"
  shows "\<exists>w'. write_text name c w = Some w' \<and> extends w w' []"
proof -
  from assms obtain d where d: "files w = Some d" by auto
  have "fst ` set d \<subseteq> fst ` set (AList.update name c d)"
    by (simp add: dom_update subset_insertI2)
  with d show ?thesis
    by (simp add: write_text_def names_def reads_append extends_def)
qed

lemma names_files: "name \<in> names w \<Longrightarrow> files w \<noteq> None"
  by (auto simp: names_def split: option.splits)

lemma extends_files: "extends w w' rs \<Longrightarrow> files w \<noteq> None \<Longrightarrow> files w' \<noteq> None"
  by (simp add: extends_def)

lemma extends_names: "extends w w' rs \<Longrightarrow> A \<subseteq> names w \<Longrightarrow> A \<subseteq> names w'"
  by (auto simp: extends_def)

lemma add_pnpm_setup_extends: "extends w (snd (add_pnpm_setup content w)) []"
  by (simp add: add_pnpm_setup_def extends_print extends_refl split: option.splits)

lemma step_setup_extends: "extends w (snd (step_setup cm w)) []"
proof (cases cm)
  case (Pair content modified)
  show ?thesis
    using add_pnpm_setup_extends [of w content]
    by (auto simp: Pair step_setup_def extends_refl split: prod.splits)
qed

lemma fix_workflow_extends:
  assumes "name \<in> names w"
  shows "\<exists>b w'. fix_workflow name w = Some (b, w') \<and> extends w w' [name]"
proof -
  let ?w0 = "w\<lparr>trace := trace w @ [Read name]\<rparr>"
  from read_text_present [OF assms] obtain c where r: "read_text name w = Some (c, ?w0)" ..
  have e0: "extends w ?w0 [name]" by (rule extends_read)
  show ?thesis
  proof (cases "needs_pnpm_setup c")
    case False
    with r e0 show ?thesis by (auto simp: fix_workflow_def)
  next
    case True
    obtain content modified w1
      where s: "step_setup (step_npm_install (step_npm_ci (step_cache (c, False)))) ?w0
                = ((content, modified), w1)"
      by (metis prod.exhaust)
    from step_setup_extends [of ?w0 "step_npm_install (step_npm_ci (step_cache (c, False)))"] s
    have e1: "extends ?w0 w1 []" by simp
    show ?thesis
    proof (cases modified)
      case False
      with r True s extends_trans [OF e0 e1] show ?thesis by (auto simp: fix_workflow_def)
    next
      case m: True
      have f1: "files w1 \<noteq> None"
        using extends_files [OF extends_trans [OF e0 e1]] names_files [OF assms] by simp
      from write_text_present [OF f1] obtain w2
        where w2: "write_text (name @ ustr ''.bak'') c w1 = Some w2" "extends w1 w2 []" by blast
      from write_text_present [OF extends_files [OF w2(2) f1]] obtain w3
        where w3: "write_text name content w2 = Some w3" "extends w2 w3 []" by blast
      from extends_trans [OF extends_trans [OF extends_trans [OF e0 e1] w2(2)] w3(2)]
      have "extends w w3 [name]" by simp
      with r True s m w2 w3 show ?thesis by (auto simp: fix_workflow_def)
    qed
  qed
qed

lemma gh_loop_extends:
  assumes "set ns \<subseteq> names w"
  shows "\<exists>w' a' b'. gh_loop ns w a b = Some (w', a', b') \<and> extends w w' ns"
  using assms
proof (induction ns arbitrary: w a b)
  case Nil
  show ?case by (simp add: extends_refl)
next
  case (Cons n ns)
  let ?w0 = "py_print (ustr ''Processing: '' @ n) w"
  have e0: "extends w ?w0 []" by (rule extends_print)
  from Cons.prems have "n \<in> names ?w0" using extends_names [OF e0, of "{n}"] by simp
  from fix_workflow_extends [OF this] obtain fixed w1
    where f: "fix_workflow n ?w0 = Some (fixed, w1)" "extends ?w0 w1 [n]" by blast
  define w2 where "w2 = (if fixed then py_print (ustr ''   '' @ [9989] @ ustr '' Fixed'' @ [NL]) w1
     else py_print (ustr ''   '' @ [9197, 65039] @
                    ustr ''  Skipped (already uses pnpm or no npm commands)'' @ [NL]) w1)"
  have e2: "extends w1 w2 []" by (simp add: w2_def extends_print)
  have e: "extends w w2 [n]"
    using extends_trans [OF extends_trans [OF e0 f(2)] e2] by simp
  from Cons.prems have "set ns \<subseteq> names w2" using extends_names [OF e, of "set ns"] by simp
  from Cons.IH [OF this] obtain w' a' b'
    where l: "gh_loop ns w2 (if fixed then a + 1 else a) (if fixed then b else b + 1)
              = Some (w', a', b')" "extends w2 w' ns"
    by blast
  from extends_trans [OF e l(2)] have "extends w w' (n # ns)" by simp
  with f l show ?case by (auto simp: w2_def split: if_splits)
qed

lemma all_fix_workflow_file_extends:
  assumes "name \<in> names w"
  shows "\<exists>r w'. all_fix_workflow_file name w = Some (r, w') \<and> extends w w' [name]"
proof -
  let ?w0 = "w\<lparr>trace := trace w @ [Read name]\<rparr>"
  from read_text_present [OF assms] obtain c where r: "read_text name w = Some (c, ?w0)" ..
  have e0: "extends w ?w0 [name]" by (rule extends_read)
  obtain content changes where a: "all_rules c = (content, changes)" by (metis prod.exhaust)
  show ?thesis
  proof (cases "content = c")
    case True
    with r a e0 show ?thesis by (auto simp: all_fix_workflow_file_def)
  next
    case False
    have "files ?w0 \<noteq> None" using names_files [OF assms] by simp
    from write_text_present [OF this] obtain w1
      where w1: "write_text name content ?w0 = Some w1" "extends ?w0 w1 []" by blast
    from extends_trans [OF e0 w1(2)] have "extends w w1 [name]" by simp
    with r a False w1 show ?thesis by (auto simp: all_fix_workflow_file_def)
  qed
qed

lemma all_loop_extends:
  assumes "set ns \<subseteq> names w"
  shows "\<exists>w' m'. all_loop ns w m = Some (w', m') \<and> extends w w' ns"
  using assms
proof (induction ns arbitrary: w m)
  case Nil
  show ?case by (simp add: extends_refl)
next
  case (Cons n ns)
  from Cons.prems have "n \<in> names w" by simp
  from all_fix_workflow_file_extends [OF this] obtain success changes w1
    where f: "all_fix_workflow_file n w = Some ((success, changes), w1)" "extends w w1 [n]"
    by (metis prod.exhaust)
  define w2 where "w2 = (if success
     then print_all (map (\<lambda>change. ustr ''  - '' @ change) changes)
            (py_print ([10003] @ ustr '' '' @ n) w1)
     else py_print ([8226] @ ustr '' '' @ n @ ustr '' - no changes needed'') w1)"
  have e2: "extends w1 w2 []"
    using extends_trans [OF extends_print extends_print_all]
    by (simp add: w2_def extends_print)
  have e: "extends w w2 [n]" using extends_trans [OF f(2) e2] by simp
  from Cons.prems have "set ns \<subseteq> names w2" using extends_names [OF e, of "set ns"] by simp
  from Cons.IH [OF this] obtain w' m'
    where l: "all_loop ns w2 (if success then m @ [n] else m) = Some (w', m')" "extends w2 w' ns"
    by blast
  from extends_trans [OF e l(2)] have "extends w w' (n # ns)" by simp
  with f l show ?case by (auto simp: w2_def split: if_splits)
qed

lemma content_of_trace: "content_of (w\<lparr>trace := es\<rparr>) = content_of w"
  by (simp add: content_of_def fun_eq_iff)

lemma names_trace: "names (w\<lparr>trace := es\<rparr>) = names w"
  by (simp add: names_def)

lemma read_text_content:
  assumes "name \<in> names w"
  shows "read_text name w = Some (content_of w name, w\<lparr>trace := trace w @ [Read name]\<rparr>)"
proof -
  from read_text_present [OF assms] obtain c
    where r: "read_text name w = Some (c, w\<lparr>trace := trace w @ [Read name]\<rparr>)" ..
  then have "c = content_of w name"
    by (auto simp: read_text_def content_of_def split: option.splits)
  with r show ?thesis by simp
qed

lemma find_files_with_result:
  assumes "set ns \<subseteq> names w"
  shows "find_files_with marker ns w acc
         = Some (acc @ filter (\<lambda>n. py_in marker (content_of w n)) ns,
                 w\<lparr>trace := trace w @ map Read ns\<rparr>)"
  using assms
proof (induction ns arbitrary: w acc)
  case Nil
  show ?case by simp
next
  case (Cons n ns)
  let ?w1 = "w\<lparr>trace := trace w @ [Read n]\<rparr>"
  from Cons.prems have r: "read_text n w = Some (content_of w n, ?w1)"
    by (simp add: read_text_content)
  from Cons.prems have "set ns \<subseteq> names ?w1" by (simp add: names_trace)
  from Cons.IH [OF this] r show ?case
    by (simp add: content_of_trace)
qed

lemma reads_map_Read: "reads (map Read ns) = ns"
  by (induction ns) auto

lemma find_files_with_extends:
  "extends w (w\<lparr>trace := trace w @ map Read ns\<rparr>) ns"
  by (simp add: extends_def names_def reads_append reads_map_Read)

lemma update_pnpm_version_extends:
  assumes "name \<in> names w"
  shows "\<exists>r w'. update_pnpm_version name w = Some (r, w') \<and> extends w w' [name]"
proof -
  let ?w0 = "w\<lparr>trace := trace w @ [Read name]\<rparr>"
  from read_text_present [OF assms] obtain c where r: "read_text name w = Some (c, ?w0)" ..
  have e0: "extends w ?w0 [name]" by (rule extends_read)
  define new_content where "new_content = re_sub upd_pattern (\<lambda>g. g @ ustr '' 10'') c"
  show ?thesis
  proof (cases "new_content = c")
    case True
    with r e0 show ?thesis by (auto simp: update_pnpm_version_def new_content_def)
  next
    case False
    have "files ?w0 \<noteq> None" using names_files [OF assms] by simp
    from write_text_present [OF this] obtain w1
      where w1: "write_text name new_content ?w0 = Some w1" "extends ?w0 w1 []" by blast
    from extends_trans [OF e0 w1(2)] have "extends w w1 [name]" by simp
    with r False w1 show ?thesis
      by (auto simp: update_pnpm_version_def new_content_def Let_def)
  qed
qed

lemma pnpm_fix_workflow_file_extends:
  assumes "name \<in> names w"
  shows "\<exists>r w'. pnpm_fix_workflow_file name w = Some (r, w') \<and> extends w w' [name]"
proof -
  let ?w0 = "w\<lparr>trace := trace w @ [Read name]\<rparr>"
  from read_text_present [OF assms] obtain c where r: "read_text name w = Some (c, ?w0)" ..
  have e0: "extends w ?w0 [name]" by (rule extends_read)
  have "files ?w0 \<noteq> None" using names_files [OF assms] by simp
  from write_text_present [OF this] obtain w1
    where w1: "write_text name (re_sub pnpm_pattern (\<lambda>g. pnpm_PNPM_SETUP @ g) c) ?w0 = Some w1"
      "extends ?w0 w1 []" by blast
  from extends_trans [OF e0 w1(2)] have "extends w w1 [name]" by simp
  with r e0 w1 show ?thesis
    by (auto simp: pnpm_fix_workflow_file_def Let_def)
qed

lemma report_loop_extends:
  assumes f: "\<And>name w. name \<in> names w \<Longrightarrow> \<exists>r w'. f name w = Some (r, w') \<and> extends w w' [name]"
    and "set ns \<subseteq> names w"
  shows "\<exists>w' m'. report_loop f ns w m = Some (w', m') \<and> extends w w' ns"
  using assms(2)
proof (induction ns arbitrary: w m)
  case Nil
  show ?case by (simp add: extends_refl)
next
  case (Cons n ns)
  let ?w0 = "py_print (ustr ''Processing: '' @ n) w"
  have e0: "extends w ?w0 []" by (rule extends_print)
  from Cons.prems have "n \<in> names ?w0" using extends_names [OF e0, of "{n}"] by simp
  from f [OF this] obtain success message w1
    where r: "f n ?w0 = Some ((success, message), w1)" "extends ?w0 w1 [n]"
    by (metis prod.exhaust)
  let ?w2 = "py_print (ustr ''  '' @ [if success then 10003 else 8226] @ ustr '' '' @ message) w1"
  have e: "extends w ?w2 [n]"
    using extends_trans [OF extends_trans [OF e0 r(2)] extends_print] by simp
  from Cons.prems have "set ns \<subseteq> names ?w2" using extends_names [OF e, of "set ns"] by simp
  from Cons.IH [OF this] obtain w' m'
    where l: "report_loop f ns ?w2 (if success then m @ [n] else m) = Some (w', m')"
      "extends ?w2 w' ns"
    by blast
  from extends_trans [OF e l(2)] have "extends w w' (n # ns)" by simp
  with r l show ?case by auto
qed

lemma glob_yml_names: "set (glob_yml w) \<subseteq> names w"
  by (auto simp: glob_yml_def names_def split: option.splits)

lemma glob_yml_print: "glob_yml (py_print l w) = glob_yml w"
  by (simp add: glob_yml_def py_print_def)

lemma content_of_print: "content_of (py_print l w) = content_of w"
  by (simp add: py_print_def content_of_trace)

lemma extends_reads: "extends w w' rs \<Longrightarrow> reads (trace w') = reads (trace w) @ rs"
  by (simp add: extends_def)

lemma gh_main_reads:
  assumes "files w \<noteq> None"
  shows "\<exists>w'. gh_main w = Completed w' \<and> reads (trace w') = reads (trace w) @ sort (glob_yml w)"
proof -
  let ?w0 = "py_print ([128295] @ ustr '' Fixing GitHub Actions workflows to use pnpm...'' @ [NL]) w"
  have d: "dir_exists ?w0" using assms by (simp add: dir_exists_def py_print_def)
  have "set (sort (glob_yml ?w0)) \<subseteq> names ?w0" using glob_yml_names [of ?w0] by simp
  from gh_loop_extends [OF this, of 0 0] obtain w1 a b
    where l: "gh_loop (sort (glob_yml ?w0)) ?w0 0 0 = Some (w1, a, b)"
      "extends ?w0 w1 (sort (glob_yml ?w0))" by blast
  have "reads (trace w1) = reads (trace w) @ sort (glob_yml w)"
    using extends_reads [OF l(2)] by (simp add: reads_print glob_yml_print)
  with d l(1) show ?thesis
    by (simp add: gh_main_def Let_def reads_print)
qed

lemma all_main_reads:
  "\<exists>w'. all_main w = Completed w' \<and> reads (trace w') = reads (trace w) @ sort (glob_yml w)"
proof -
  let ?w0 = "py_print ([128295] @ ustr '' Fixing pnpm configuration in all workflow files...'' @
                       [NL]) w"
  let ?w1 = "py_print (ustr ''Found '' @ show_nat (length (glob_yml ?w0)) @
                       ustr '' workflow files'' @ [NL]) ?w0"
  have "set (sort (glob_yml ?w0)) \<subseteq> names ?w1"
    using glob_yml_names [of ?w1] by (simp add: glob_yml_print)
  from all_loop_extends [OF this, of "[]"] obtain w2 m
    where l: "all_loop (sort (glob_yml ?w0)) ?w1 [] = Some (w2, m)"
      "extends ?w1 w2 (sort (glob_yml ?w0))" by blast
  have "reads (trace w2) = reads (trace w) @ sort (glob_yml w)"
    using extends_reads [OF l(2)] by (simp add: reads_print glob_yml_print)
  with l(1) show ?thesis
    by (simp add: all_main_def Let_def reads_print)
qed

lemma upd_main_reads:
  "\<exists>w'. upd_main w = Completed w' \<and>
        reads (trace w')
        = reads (trace w) @ glob_yml w @
          filter (\<lambda>n. py_in (ustr ''pnpm/action-setup'') (content_of w n)) (glob_yml w)"
proof -
  let ?w0 = "py_print ([128295] @ ustr '' Updating pnpm version in workflow files...'' @ [NL]) w"
  let ?fs = "filter (\<lambda>n. py_in (ustr ''pnpm/action-setup'') (content_of w n)) (glob_yml w)"
  let ?w1 = "?w0\<lparr>trace := trace ?w0 @ map Read (glob_yml w)\<rparr>"
  let ?w2 = "py_print (ustr ''Found '' @ show_nat (length ?fs) @
                       ustr '' workflow files using pnpm/action-setup'' @ [NL]) ?w1"
  have f: "upd_find_workflow_files ?w0 = Some (?fs, ?w1)"
    using find_files_with_result
      [OF glob_yml_names [of ?w0], where marker = "ustr ''pnpm/action-setup''" and acc = "[]"]
    by (simp add: upd_find_workflow_files_def glob_yml_print content_of_print)
  have r1: "reads (trace ?w1) = reads (trace w) @ glob_yml w"
    by (simp add: reads_append reads_print reads_map_Read)
  have "set ?fs \<subseteq> names ?w2"
    using glob_yml_names [of w] by (auto simp: names_print names_trace)
  from report_loop_extends [of update_pnpm_version, OF update_pnpm_version_extends this, of "[]"]
  obtain w3 m where l: "report_loop update_pnpm_version ?fs ?w2 [] = Some (w3, m)"
    "extends ?w2 w3 ?fs" by blast
  have "reads (trace w3) = reads (trace w) @ glob_yml w @ ?fs"
    using extends_reads [OF l(2)] r1 by (simp add: reads_print)
  with f l(1) show ?thesis
    by (simp add: upd_main_def Let_def reads_print reads_print_all)
qed

lemma pnpm_main_reads:
  "\<exists>w'. pnpm_main w = Completed w' \<and>
        reads (trace w')
        = reads (trace w) @ glob_yml w @
          filter (\<lambda>n. py_in cache_pnpm (content_of w n)) (glob_yml w)"
proof -
  let ?w0 = "py_print ([128295] @ ustr '' Fixing pnpm setup in workflow files...'' @ [NL]) w"
  let ?fs = "filter (\<lambda>n. py_in cache_pnpm (content_of w n)) (glob_yml w)"
  let ?w1 = "?w0\<lparr>trace := trace ?w0 @ map Read (glob_yml w)\<rparr>"
  let ?w2 = "py_print (ustr ''Found '' @ show_nat (length ?fs) @
                       ustr '' workflow files using pnpm'' @ [NL]) ?w1"
  have f: "pnpm_find_workflow_files ?w0 = Some (?fs, ?w1)"
    using find_files_with_result
      [OF glob_yml_names [of ?w0], where marker = cache_pnpm and acc = "[]"]
    by (simp add: pnpm_find_workflow_files_def glob_yml_print content_of_print)
  have r1: "reads (trace ?w1) = reads (trace w) @ glob_yml w"
    by (simp add: reads_append reads_print reads_map_Read)
  have "set ?fs \<subseteq> names ?w2"
    using glob_yml_names [of w] by (auto simp: names_print names_trace)
  from report_loop_extends [of pnpm_fix_workflow_file, OF pnpm_fix_workflow_file_extends this,
      of "[]"]
  obtain w3 m where l: "report_loop pnpm_fix_workflow_file ?fs ?w2 [] = Some (w3, m)"
    "extends ?w2 w3 ?fs" by blast
  have "reads (trace w3) = reads (trace w) @ glob_yml w @ ?fs"
    using extends_reads [OF l(2)] r1 by (simp add: reads_print)
  with f l(1) show ?thesis
    by (simp add: pnpm_main_def Let_def reads_print reads_print_all)
qed

text \<open>
  C9, as stated, fails: \<open>fix-pnpm-workflows.py\<close> (and \<open>update-pnpm-version.py\<close>) loops
  over the list built from \<open>glob\<close> without sorting it. In a directory that enumerates
  \<open>b.yml\<close> before \<open>a.yml\<close>, \<open>b.yml\<close> is processed and reported first.
\<close>

theorem sorted_processing_counterexample:
  "pnpm_main \<lparr>files = Some [(ustr ''b.yml'', cache_pnpm), (ustr ''a.yml'', cache_pnpm)],
              trace = []\<rparr>
   = Completed
       \<lparr>files = Some [(ustr ''b.yml'', cache_pnpm), (ustr ''a.yml'', cache_pnpm)],
        trace =
          [Print ([128295] @ ustr '' Fixing pnpm setup in workflow files...'' @ [NL]),
           Read (ustr ''b.yml''), Read (ustr ''a.yml''),
           Print (ustr ''Found 2 workflow files using pnpm'' @ [NL]),
           Print (ustr ''Processing: b.yml''), Read (ustr ''b.yml''),
           Print (ustr ''  '' @ [8226] @ ustr '' No setup-node found''),
           Print (ustr ''Processing: a.yml''), Read (ustr ''a.yml''),
           Print (ustr ''  '' @ [8226] @ ustr '' No setup-node found''),
           Print ([NL, 9989] @ ustr '' Processed 2 workflow files''),
           Print (ustr ''Modified 0 files:'' @ [NL])]\<rparr>
   \<and> ustr ''a.yml'' < ustr ''b.yml''"
  by (simp add: pnpm_main_def pnpm_find_workflow_files_def pnpm_fix_workflow_file_def
      pnpm_pattern_def io_eval text_eval regex_eval show_nat.simps Let_def)

text \<open>
  C9, amended. \<open>fix-github-workflows.py\<close> and \<open>fix-all-pnpm-workflows.py\<close> sort the
  discovered files: every run completes, and the files it reads are the \<open>*.yml\<close> files
  of the directory, each once, in sorted name order. \<open>update-pnpm-version.py\<close> and
  \<open>fix-pnpm-workflows.py\<close> do not sort: they read every \<open>*.yml\<close> file in the order in
  which the directory enumerates them, and then process, in that same order, those that
  hold the marker (\<open>pnpm/action-setup\<close>, respectively \<open>cache: 'pnpm'\<close>).
\<close>

theorem processing_order:
  "(files w \<noteq> None \<longrightarrow>
      (\<exists>w'. gh_main w = Completed w' \<and>
            reads (trace w') = reads (trace w) @ sort (glob_yml w)))
   \<and> (\<exists>w'. all_main w = Completed w' \<and>
            reads (trace w') = reads (trace w) @ sort (glob_yml w))
   \<and> (\<exists>w'. upd_main w = Completed w' \<and>
            reads (trace w')
            = reads (trace w) @ glob_yml w @
              filter (\<lambda>n. py_in (ustr ''pnpm/action-setup'') (content_of w n)) (glob_yml w))
   \<and> (\<exists>w'. pnpm_main w = Completed w' \<and>
            reads (trace w')
            = reads (trace w) @ glob_yml w @
              filter (\<lambda>n. py_in cache_pnpm (content_of w n)) (glob_yml w))
   \<and> sorted (sort (glob_yml w))"
  using gh_main_reads [of w] all_main_reads [of w] upd_main_reads [of w] pnpm_main_reads [of w]
  by simp

theorem processing_order_witness:
  "files \<lparr>files = Some [(ustr ''b.yml'', cache_pnpm), (ustr ''a.yml'', cache_pnpm)],
          trace = []\<rparr> \<noteq> None
   \<and> (\<exists>w'. gh_main \<lparr>files = Some [(ustr ''b.yml'', cache_pnpm), (ustr ''a.yml'', cache_pnpm)],
                     trace = []\<rparr> = Completed w'
          \<and> reads (trace w') = [ustr ''a.yml'', ustr ''b.yml''])
   \<and> (\<exists>w'. all_main \<lparr>files = Some [(ustr ''b.yml'', cache_pnpm), (ustr ''a.yml'', cache_pnpm)],
                      trace = []\<rparr> = Completed w'
          \<and> reads (trace w') = [ustr ''a.yml'', ustr ''b.yml''])
   \<and> (\<exists>w'. pnpm_main \<lparr>files = Some [(ustr ''b.yml'', cache_pnpm), (ustr ''a.yml'', cache_pnpm)],
                       trace = []\<rparr> = Completed w'
          \<and> reads (trace w')
            = [ustr ''b.yml'', ustr ''a.yml'', ustr ''b.yml'', ustr ''a.yml''])"
proof -
  have g: "glob_yml \<lparr>files = Some [(ustr ''b.yml'', cache_pnpm), (ustr ''a.yml'', cache_pnpm)],
                     trace = []\<rparr> = [ustr ''b.yml'', ustr ''a.yml'']"
    by (simp add: glob_yml_def text_eval suffix_to_prefix)
  have s: "\<not> ustr ''b.yml'' \<le> ustr ''a.yml''"
    by (simp add: text_eval)
  have c: "content_of \<lparr>files = Some [(ustr ''b.yml'', cache_pnpm), (ustr ''a.yml'', cache_pnpm)],
                       trace = []\<rparr> = (\<lambda>n. if n = ustr ''b.yml'' \<or> n = ustr ''a.yml''
                                            then cache_pnpm else [])"
    by (auto simp: content_of_def fun_eq_iff)
  have p: "py_in cache_pnpm cache_pnpm" by (simp add: text_eval)
  show ?thesis
    using processing_order
      [of "\<lparr>files = Some [(ustr ''b.yml'', cache_pnpm), (ustr ''a.yml'', cache_pnpm)],
           trace = []\<rparr>"]
    by (simp add: g s c p)
qed

subsection \<open>The version bump of fix-all-pnpm-workflows.py\<close>

text \<open>
  The rules on the step that \<open>fix-github-workflows.py\<close> inserts: a step with
  \<open>uses: pnpm/action-setup@v4\<close>, then \<open>with:\<close>, then \<open>version: 9\<close>.
\<close>

lemma all_rules_scenario:
  "all_rules gh_PNPM_SETUP
   = (ustr ''      - name: Install pnpm'' @ [NL] @
      ustr ''        uses: pnpm/action-setup@v2'' @ [NL] @
      ustr ''        with:'' @ [NL] @
      ustr ''          version: 10'' @ [NL] @ [NL],
      [ustr ''Updated action version v4 '' @ [8594] @ ustr '' v2 (1 occurrences)'',
       ustr ''Updated pnpm version 9 '' @ [8594] @ ustr '' 10 (1 occurrences)''])"
  by (simp add: all_rules_def all_fix1_def all_fix2_def all_pattern1_def all_pattern2_def
      gh_PNPM_SETUP_def text_eval regex_eval show_nat.simps)

text \<open>
  C4, as stated, fails: the first rule of the script rewrites the action reference, so
  the output does not hold \<open>uses: pnpm/action-setup@v4\<close> any more, and the two changes
  reported are worded otherwise than the claim says.
\<close>

theorem version_bump_counterexample:
  "\<not> py_in (ustr ''uses: pnpm/action-setup@v4'') (fst (all_rules gh_PNPM_SETUP))
   \<and> snd (all_rules gh_PNPM_SETUP)
     = [ustr ''Updated action version v4 '' @ [8594] @ ustr '' v2 (1 occurrences)'',
        ustr ''Updated pnpm version 9 '' @ [8594] @ ustr '' 10 (1 occurrences)'']
   \<and> ustr ''version 9 '' @ [8594] @ ustr '' 10 (1 occurrence).''
     \<notin> set (snd (all_rules gh_PNPM_SETUP))"
  unfolding all_rules_scenario by (simp add: text_eval)

subsection \<open>The \<open>modified\<close> flag of fix-github-workflows.py\<close>

lemmas gh_eval = fix_workflow_def step_cache_def step_npm_ci_def step_npm_install_def
  step_setup_def add_pnpm_setup_def needs_pnpm_setup_def has_pnpm_setup_def
  setup_node_pattern_def npm_ci_pattern_def npm_install_pattern_def gh_PNPM_SETUP_def

text \<open>
  C1 on \<open>fix-github-workflows.py\<close>. The file holds \<open>run: npm install -g pkg\<close> and no
  Setup Node.js step. No rule changes the text: step 3 does not match a global install,
  and step 4 finds no anchor, prints its warning and returns the content as it was. Yet
  step 4 sets \<open>modified\<close>, so the backup is created and the file is written again with
  the text it already had, and \<open>fix_workflow\<close> returns \<open>True\<close>.
\<close>

theorem fix_workflow_writes_unchanged_text:
  "fix_workflow (ustr ''ci.yml'')
     \<lparr>files = Some [(ustr ''ci.yml'', ustr ''      - run: npm install -g pkg'' @ [NL])],
      trace = []\<rparr>
   = Some (True,
       \<lparr>files = Some [(ustr ''ci.yml'', ustr ''      - run: npm install -g pkg'' @ [NL]),
                      (ustr ''ci.yml.bak'', ustr ''      - run: npm install -g pkg'' @ [NL])],
        trace =
          [Read (ustr ''ci.yml''),
           Print (ustr ''   '' @ [9888, 65039] @ ustr ''  Could not find '' @ [39] @
                  ustr ''Setup Node.js'' @ [39] @ ustr '' step to insert pnpm setup''),
           Write (ustr ''ci.yml.bak'') (ustr ''      - run: npm install -g pkg'' @ [NL]),
           Write (ustr ''ci.yml'') (ustr ''      - run: npm install -g pkg'' @ [NL])]\<rparr>)"
  by (simp add: gh_eval io_eval text_eval regex_eval)

text \<open>
  C3 on \<open>fix-github-workflows.py\<close>. The file holds \<open>cache: 'npm'\<close> and
  \<open>run: npm ci --prefer-offline\<close>. The first application rewrites the cache line and
  keeps the original text as backup. The second application changes no text, but
  \<open>run: npm ci\<close> still occurs in it, so step 2 sets \<open>modified\<close>: the backup is
  overwritten with the text of the first application, the file is written again, and
  \<open>fix_workflow\<close> returns \<open>True\<close>, which \<open>main\<close> reports as "Fixed".
\<close>

theorem fix_workflow_second_application:
  "fix_workflow (ustr ''ci.yml'')
     \<lparr>files = Some [(ustr ''ci.yml'',
                      ustr ''          '' @ cache_npm @ [NL] @
                      ustr ''      - run: npm ci --prefer-offline'' @ [NL])],
      trace = []\<rparr>
   = Some (True,
       \<lparr>files = Some [(ustr ''ci.yml'',
                        ustr ''          '' @ cache_pnpm @ [NL] @
                        ustr ''      - run: npm ci --prefer-offline'' @ [NL]),
                      (ustr ''ci.yml.bak'',
                        ustr ''          '' @ cache_npm @ [NL] @
                        ustr ''      - run: npm ci --prefer-offline'' @ [NL])],
        trace =
          [Read (ustr ''ci.yml''),
           Print (ustr ''   '' @ [9888, 65039] @ ustr ''  Could not find '' @ [39] @
                  ustr ''Setup Node.js'' @ [39] @ ustr '' step to insert pnpm setup''),
           Write (ustr ''ci.yml.bak'')
             (ustr ''          '' @ cache_npm @ [NL] @
              ustr ''      - run: npm ci --prefer-offline'' @ [NL]),
           Write (ustr ''ci.yml'')
             (ustr ''          '' @ cache_pnpm @ [NL] @
              ustr ''      - run: npm ci --prefer-offline'' @ [NL])]\<rparr>)
   \<and> fix_workflow (ustr ''ci.yml'')
       \<lparr>files = Some [(ustr ''ci.yml'',
                        ustr ''          '' @ cache_pnpm @ [NL] @
                        ustr ''      - run: npm ci --prefer-offline'' @ [NL]),
                      (ustr ''ci.yml.bak'',
                        ustr ''          '' @ cache_npm @ [NL] @
                        ustr ''      - run: npm ci --prefer-offline'' @ [NL])],
        trace = []\<rparr>
   = Some (True,
       \<lparr>files = Some [(ustr ''ci.yml'',
                        ustr ''          '' @ cache_pnpm @ [NL] @
                        ustr ''      - run: npm ci --prefer-offline'' @ [NL]),
                      (ustr ''ci.yml.bak'',
                        ustr ''          '' @ cache_pnpm @ [NL] @
                        ustr ''      - run: npm ci --prefer-offline'' @ [NL])],
        trace =
          [Read (ustr ''ci.yml''),
           Print (ustr ''   '' @ [9888, 65039] @ ustr ''  Could not find '' @ [39] @
                  ustr ''Setup Node.js'' @ [39] @ ustr '' step to insert pnpm setup''),
           Write (ustr ''ci.yml.bak'')
             (ustr ''          '' @ cache_pnpm @ [NL] @
              ustr ''      - run: npm ci --prefer-offline'' @ [NL]),
           Write (ustr ''ci.yml'')
             (ustr ''          '' @ cache_pnpm @ [NL] @
              ustr ''      - run: npm ci --prefer-offline'' @ [NL])]\<rparr>)"
  by (simp add: gh_eval io_eval text_eval regex_eval py_replace.simps)

subsection \<open>The substitutions anchored at the end of a line\<close>

lemma split_lines_nonl: "NL \<notin> set x \<Longrightarrow> split_lines x = [x]"
  by (induction x) auto

lemma split_lines_append: "NL \<notin> set x \<Longrightarrow> split_lines (x @ NL # y) = x # split_lines y"
  by (induction x) auto

lemma match_at_eol:
  "match_at ([], [Lit old, Eol]) s
   = (if prefix old s \<and> (drop (length old) s = [] \<or> hd (drop (length old) s) = NL)
      then Some (s, drop (length old) s) else None)"
  by (simp add: match_at_def)

lemma eol_match_line:
  assumes "NL \<notin> set l" and "NL \<notin> set old" and "r = [] \<or> hd r = NL"
  shows "(prefix old (l @ r) \<and> (drop (length old) (l @ r) = [] \<or> hd (drop (length old) (l @ r)) = NL))
         \<longleftrightarrow> old = l"
proof
  assume "old = l"
  with assms(3) show "prefix old (l @ r) \<and>
      (drop (length old) (l @ r) = [] \<or> hd (drop (length old) (l @ r)) = NL)"
    by auto
next
  assume a: "prefix old (l @ r) \<and>
      (drop (length old) (l @ r) = [] \<or> hd (drop (length old) (l @ r)) = NL)"
  then consider (inside) "prefix old l" | (beyond) us where "old = l @ us" "prefix us r"
    by (auto simp: prefix_append)
  then show "old = l"
  proof cases
    case inside
    then obtain t where t: "l = old @ t" by (auto simp: prefix_def)
    show ?thesis
    proof (cases t)
      case Nil
      with t show ?thesis by simp
    next
      case (Cons x xs)
      with t assms(1) have "x \<noteq> NL" by auto
      with a t Cons show ?thesis by simp
    qed
  next
    case beyond
    show ?thesis
    proof (cases us)
      case Nil
      with beyond show ?thesis by simp
    next
      case (Cons x xs)
      with beyond(2) obtain r' where "r = x # r'" by (auto simp: prefix_def)
      with assms(3) have "x = NL" by simp
      with beyond(1) Cons assms(2) show ?thesis by simp
    qed
  qed
qed

lemma line_sub_Cons:
  assumes "c # l \<noteq> old"
  shows "line_sub old new (c # l) = c # line_sub old new l"
proof (cases "suffix old l")
  case True
  then have "length old \<le> length l" by (rule suffix_length_le)
  with True show ?thesis
    by (simp add: line_sub_def suffix_Cons Suc_diff_le)
next
  case False
  with assms show ?thesis by (auto simp: line_sub_def suffix_Cons)
qed

lemma re_sub_eol_line:
  assumes "NL \<notin> set l" and "NL \<notin> set old" and "old \<noteq> []" and "r = [] \<or> hd r = NL"
  shows "re_sub ([], [Lit old, Eol]) (\<lambda>g. new) (l @ r)
         = line_sub old new l @ re_sub ([], [Lit old, Eol]) (\<lambda>g. new) r"
  using assms(1)
proof (induction l)
  case Nil
  from assms(3) show ?case by (simp add: line_sub_def)
next
  case (Cons c l)
  then have nl: "NL \<notin> set (c # l)" and IH: "re_sub ([], [Lit old, Eol]) (\<lambda>g. new) (l @ r)
         = line_sub old new l @ re_sub ([], [Lit old, Eol]) (\<lambda>g. new) r"
    by auto
  note m = eol_match_line [OF nl assms(2) assms(4)]
  show ?case
  proof (cases "old = c # l")
    case True
    with m have "match_at ([], [Lit old, Eol]) (c # l @ r) = Some (c # l @ r, r)"
      by (simp add: match_at_eol)
    with True show ?thesis by (simp add: line_sub_def)
  next
    case False
    with m have "match_at ([], [Lit old, Eol]) (c # l @ r) = None"
      unfolding match_at_eol by auto
    with False IH show ?thesis by (simp add: line_sub_Cons)
  qed
qed

lemma re_sub_eol_newline:
  assumes "NL \<notin> set old" and "old \<noteq> []"
  shows "re_sub ([], [Lit old, Eol]) (\<lambda>g. new) (NL # rest)
         = NL # re_sub ([], [Lit old, Eol]) (\<lambda>g. new) rest"
proof -
  from assms have "\<not> prefix old (NL # rest)"
    by (cases old) auto
  then show ?thesis by (simp add: match_at_eol)
qed

lemma set_line_sub: "set (line_sub old new l) \<subseteq> set l \<union> set new"
  by (auto simp: line_sub_def dest: in_set_takeD)

lemma split_lines_re_sub_eol:
  assumes "NL \<notin> set old" and "old \<noteq> []" and "NL \<notin> set new"
  shows "split_lines (re_sub ([], [Lit old, Eol]) (\<lambda>g. new) s)
         = map (line_sub old new) (split_lines s)"
proof (induction s rule: length_induct)
  case (1 s)
  define l where "l = takeWhile (\<lambda>c. c \<noteq> NL) s"
  define r where "r = dropWhile (\<lambda>c. c \<noteq> NL) s"
  have s: "s = l @ r" by (simp add: l_def r_def)
  have nl: "NL \<notin> set l" unfolding l_def by (auto dest: set_takeWhileD)
  have r: "r = [] \<or> hd r = NL"
    unfolding r_def using hd_dropWhile [of "\<lambda>c. c \<noteq> NL" s] by auto
  from nl assms(3) set_line_sub [of old new l] have nls: "NL \<notin> set (line_sub old new l)"
    by auto
  show ?case
  proof (cases r)
    case Nil
    with s nl nls re_sub_eol_line [OF nl assms(1) assms(2) r, of new] show ?thesis
      by (simp add: split_lines_nonl)
  next
    case (Cons x rest)
    with r have x: "x = NL" by simp
    from s Cons have "length rest < length s" by simp
    with 1 have IH: "split_lines (re_sub ([], [Lit old, Eol]) (\<lambda>g. new) rest)
         = map (line_sub old new) (split_lines rest)" by blast
    from re_sub_eol_line [OF nl assms(1) assms(2) r, of new]
      re_sub_eol_newline [OF assms(1) assms(2), of new rest]
    have "re_sub ([], [Lit old, Eol]) (\<lambda>g. new) s
          = line_sub old new l @ NL # re_sub ([], [Lit old, Eol]) (\<lambda>g. new) rest"
      by (simp add: s Cons x)
    with IH nl nls show ?thesis
      by (simp add: s Cons x split_lines_append)
  qed
qed

lemma re_search_None_re_sub: "re_search p s = None \<Longrightarrow> re_sub p r s = s"
  by (induction s) (auto split: option.splits)

lemma not_py_in_re_sub_eol:
  "\<not> py_in old s \<Longrightarrow> re_sub ([], [Lit old, Eol]) r s = s"
  by (induction s) (auto simp: match_at_eol)

lemma step_npm_ci_re_sub:
  "fst (step_npm_ci (content, modified))
   = re_sub npm_ci_pattern (\<lambda>g. ustr ''run: pnpm install --frozen-lockfile'') content"
  by (simp add: step_npm_ci_def npm_ci_pattern_def not_py_in_re_sub_eol)

lemma step_npm_install_re_sub:
  "fst (step_npm_install (content, modified))
   = re_sub npm_install_pattern (\<lambda>g. ustr ''run: pnpm install'') content"
  by (auto simp: step_npm_install_def re_search_None_re_sub)

lemma steps_2_3_re_sub:
  "steps_2_3 content
   = re_sub npm_install_pattern (\<lambda>g. ustr ''run: pnpm install'')
       (re_sub npm_ci_pattern (\<lambda>g. ustr ''run: pnpm install --frozen-lockfile'') content)"
proof -
  obtain c m where s: "step_npm_ci (content, False) = (c, m)" by (metis prod.exhaust)
  with step_npm_ci_re_sub [of content False]
  have "c = re_sub npm_ci_pattern (\<lambda>g. ustr ''run: pnpm install --frozen-lockfile'') content"
    by simp
  with s step_npm_install_re_sub [of c m] show ?thesis
    by (simp add: steps_2_3_def)
qed

lemma suffix_longer: "length a \<le> length b \<Longrightarrow> suffix a (x @ b) \<longleftrightarrow> suffix a b"
  by (auto simp: suffix_append)

lemma rewrite_line_line_sub:
  "line_sub (ustr ''run: npm install'') (ustr ''run: pnpm install'')
     (line_sub (ustr ''run: npm ci'') (ustr ''run: pnpm install --frozen-lockfile'') l)
   = rewrite_line l"
proof -
  have l1: "length (ustr ''run: npm ci'') = 11" and l2: "length (ustr ''run: npm install'') = 16"
    by (simp_all add: ustr_def)
  show ?thesis
  proof (cases "suffix (ustr ''run: npm ci'') l")
    case True
    have "\<not> suffix (ustr ''run: npm install'')
            (take (length l - 11) l @ ustr ''run: pnpm install --frozen-lockfile'')"
      by (subst suffix_longer) (simp_all add: text_eval suffix_to_prefix)
    with True show ?thesis
      by (simp add: line_sub_def rewrite_line_def l1)
  next
    case False
    then show ?thesis
      by (simp add: line_sub_def rewrite_line_def l2)
  qed
qed

text \<open>
  Steps 2 and 3 of \<open>fix_workflow\<close>, taken alone, work line by line: the lines of their
  output are the lines of their input, each rewritten on its own. A line ending in
  \<open>run: npm ci\<close> has that ending replaced by \<open>run: pnpm install --frozen-lockfile\<close>, a
  line ending in \<open>run: npm install\<close> has that ending replaced by \<open>run: pnpm install\<close>,
  and they leave every other line as it is. What \<open>fix_workflow\<close> writes also depends on
  steps 1 and 4.
\<close>

lemma steps_2_3_lines:
  "split_lines (steps_2_3 content) = map rewrite_line (split_lines content)
   \<and> (\<not> suffix (ustr ''run: npm ci'') l \<and> \<not> suffix (ustr ''run: npm install'') l
        \<longrightarrow> rewrite_line l = l)"
proof -
  have 1: "split_lines (re_sub npm_ci_pattern (\<lambda>g. ustr ''run: pnpm install --frozen-lockfile'')
             content)
           = map (line_sub (ustr ''run: npm ci'') (ustr ''run: pnpm install --frozen-lockfile''))
               (split_lines content)"
    unfolding npm_ci_pattern_def
    by (rule split_lines_re_sub_eol) (simp_all add: text_eval)
  have 2: "split_lines (re_sub npm_install_pattern (\<lambda>g. ustr ''run: pnpm install'') s)
           = map (line_sub (ustr ''run: npm install'') (ustr ''run: pnpm install''))
               (split_lines s)" for s
    unfolding npm_install_pattern_def
    by (rule split_lines_re_sub_eol) (simp_all add: text_eval)
  show ?thesis
    by (simp add: steps_2_3_re_sub 1 2 rewrite_line_line_sub) (simp add: rewrite_line_def)
qed

text \<open>
  C10 on \<open>fix_workflow\<close>. The file holds the line \<open>- run: npm install -g pkg\<close> right
  before the Setup Node.js step, and no pnpm setup. Steps 1 to 3 change nothing: the
  global install is not a bare \<open>npm install\<close>. Step 4 then inserts its block at the start
  of the anchor match, and the pattern starts with \<open>\s+\<close>, so the match starts at the
  newline that ends the line of the global install: the block is appended to that line,
  which is written as \<open>- run: npm install -g pkg      - name: Install pnpm\<close>. The
  line of the input is not a line of the output.
\<close>

theorem fix_workflow_changes_global_install_line:
  "fix_workflow (ustr ''ci.yml'')
     \<lparr>files = Some [(ustr ''ci.yml'',
                      ustr ''      - run: npm install -g pkg'' @ [NL] @
                      ustr ''      - name: Setup Node.js'' @ [NL] @
                      ustr ''        uses: actions/setup-node@v4'' @ [NL])],
      trace = []\<rparr>
   = Some (True,
       \<lparr>files = Some [(ustr ''ci.yml'',
                        ustr ''      - run: npm install -g pkg'' @ gh_PNPM_SETUP @ [NL] @
                        ustr ''      - name: Setup Node.js'' @ [NL] @
                        ustr ''        uses: actions/setup-node@v4'' @ [NL]),
                      (ustr ''ci.yml.bak'',
                        ustr ''      - run: npm install -g pkg'' @ [NL] @
                        ustr ''      - name: Setup Node.js'' @ [NL] @
                        ustr ''        uses: actions/setup-node@v4'' @ [NL])],
        trace =
          [Read (ustr ''ci.yml''),
           Write (ustr ''ci.yml.bak'')
             (ustr ''      - run: npm install -g pkg'' @ [NL] @
              ustr ''      - name: Setup Node.js'' @ [NL] @
              ustr ''        uses: actions/setup-node@v4'' @ [NL]),
           Write (ustr ''ci.yml'')
             (ustr ''      - run: npm install -g pkg'' @ gh_PNPM_SETUP @ [NL] @
              ustr ''      - name: Setup Node.js'' @ [NL] @
              ustr ''        uses: actions/setup-node@v4'' @ [NL])]\<rparr>)
   \<and> split_lines (ustr ''      - run: npm install -g pkg'' @ gh_PNPM_SETUP @ [NL] @
                   ustr ''      - name: Setup Node.js'' @ [NL] @
                   ustr ''        uses: actions/setup-node@v4'' @ [NL])
     = [ustr ''      - run: npm install -g pkg      - name: Install pnpm'',
        ustr ''        uses: pnpm/action-setup@v4'',
        ustr ''        with:'',
        ustr ''          version: 9'',
        [], [],
        ustr ''      - name: Setup Node.js'',
        ustr ''        uses: actions/setup-node@v4'',
        []]
   \<and> ustr ''      - run: npm install -g pkg''
     \<in> set (split_lines (ustr ''      - run: npm install -g pkg'' @ [NL] @
                          ustr ''      - name: Setup Node.js'' @ [NL] @
                          ustr ''        uses: actions/setup-node@v4'' @ [NL]))
   \<and> ustr ''      - run: npm install -g pkg''
     \<notin> set (split_lines (ustr ''      - run: npm install -g pkg'' @ gh_PNPM_SETUP @ [NL] @
                             ustr ''      - name: Setup Node.js'' @ [NL] @
                             ustr ''        uses: actions/setup-node@v4'' @ [NL]))"
  by (simp add: fix_workflow_def step_cache_def step_npm_ci_def step_npm_install_def
      step_setup_def add_pnpm_setup_def needs_pnpm_setup_def has_pnpm_setup_def
      setup_node_pattern_def npm_ci_pattern_def npm_install_pattern_def gh_PNPM_SETUP_def
      io_eval text_eval regex_eval)

subsection \<open>What a match looks like\<close>

lemma greedy_sound:
  "greedy k s cont = Some r \<Longrightarrow>
   \<exists>x rest. s = x @ rest \<and> list_all (in_cls k) x \<and> cont rest = Some r"
proof (induction s)
  case Nil
  then show ?case by simp
next
  case (Cons c s)
  show ?case
  proof (cases "in_cls k c \<and> greedy k s cont = Some r")
    case True
    with Cons.IH obtain x rest where "s = x @ rest" "list_all (in_cls k) x" "cont rest = Some r"
      by blast
    with True have "c # s = (c # x) @ rest \<and> list_all (in_cls k) (c # x) \<and> cont rest = Some r"
      by simp
    then show ?thesis by blast
  next
    case False
    with Cons.prems have "cont (c # s) = Some r"
      by (auto split: if_splits option.splits)
    then have "c # s = [] @ (c # s) \<and> list_all (in_cls k) [] \<and> cont (c # s) = Some r"
      by simp
    then show ?thesis by blast
  qed
qed

lemma m_atom_sound:
  assumes "m_atom a s cont = Some r"
  shows "\<exists>x rest. s = x @ rest \<and> atom_lang a x \<and> cont rest = Some r"
proof (cases a)
  case (Lit l)
  with assms have "prefix l s" "cont (drop (length l) s) = Some r"
    by (auto split: if_splits)
  then have "s = l @ drop (length l) s \<and> atom_lang a l \<and> cont (drop (length l) s) = Some r"
    by (auto simp: Lit prefix_def)
  then show ?thesis by blast
next
  case (Many1 k)
  with assms obtain c cs where s: "s = c # cs" "in_cls k c" "greedy k cs cont = Some r"
    by (auto split: list.splits if_splits)
  from greedy_sound [OF s(3)] obtain x rest
    where "cs = x @ rest" "list_all (in_cls k) x" "cont rest = Some r" by blast
  with s have "s = (c # x) @ rest \<and> atom_lang a (c # x) \<and> cont rest = Some r"
    by (simp add: Many1)
  then show ?thesis by blast
next
  case (Many0 k)
  with assms greedy_sound [of k s cont r] show ?thesis by simp
next
  case (Times n k)
  with assms have "n \<le> length s" "list_all (in_cls k) (take n s)" "cont (drop n s) = Some r"
    by (auto split: if_splits)
  then have "s = take n s @ drop n s \<and> atom_lang a (take n s) \<and> cont (drop n s) = Some r"
    by (simp add: Times)
  then show ?thesis by blast
next
  case Eol
  with assms have "cont s = Some r" by (auto split: if_splits)
  then have "s = [] @ s \<and> atom_lang a [] \<and> cont s = Some r" by (simp add: Eol)
  then show ?thesis by blast
qed

lemma m_seq_sound:
  "m_seq as s cont = Some r \<Longrightarrow>
   \<exists>xs rest. s = concat xs @ rest \<and> list_all2 atom_lang as xs \<and> cont rest = Some r"
proof (induction as arbitrary: s)
  case Nil
  then have "s = concat [] @ s \<and> list_all2 atom_lang [] [] \<and> cont s = Some r" by simp
  then show ?case by blast
next
  case (Cons a as)
  then have "m_atom a s (\<lambda>s'. m_seq as s' cont) = Some r" by simp
  from m_atom_sound [OF this] obtain x s' where
    x: "s = x @ s'" "atom_lang a x" "m_seq as s' cont = Some r" by blast
  from Cons.IH [OF x(3)] obtain xs rest where
    xs: "s' = concat xs @ rest" "list_all2 atom_lang as xs" "cont rest = Some r" by blast
  from x xs have "s = concat (x # xs) @ rest \<and> list_all2 atom_lang (a # as) (x # xs)
                  \<and> cont rest = Some r" by simp
  then show ?case by blast
qed

lemma match_at_sound:
  assumes "match_at p s = Some (s1, s2)"
  shows "\<exists>xs ys. list_all2 atom_lang (fst p) xs \<and> list_all2 atom_lang (snd p) ys \<and>
                 s = concat xs @ s1 \<and> s1 = concat ys @ s2"
proof -
  from assms have "m_seq (fst p) s (\<lambda>s1. m_seq (snd p) s1 (\<lambda>s2. Some (s1, s2))) = Some (s1, s2)"
    by (simp add: match_at_def)
  from m_seq_sound [OF this] obtain xs t where
    xs: "s = concat xs @ t" "list_all2 atom_lang (fst p) xs"
      "m_seq (snd p) t (\<lambda>s2. Some (t, s2)) = Some (s1, s2)" by blast
  from m_seq_sound [OF xs(3)] obtain ys t' where
    ys: "t = concat ys @ t'" "list_all2 atom_lang (snd p) ys" "Some (t, t') = Some (s1, s2)"
    by blast
  with xs show ?thesis by auto
qed

lemma all_pattern2_match:
  assumes "match_at all_pattern2 s = Some (s1, s2)"
  shows "\<exists>g ws. all_window g \<and> list_all unicode_space ws \<and> s = g @ s1 \<and> s1 = ws @ 57 # s2"
proof -
  from match_at_sound [OF assms] obtain xs ys where
    m: "list_all2 atom_lang (fst all_pattern2) xs" "list_all2 atom_lang (snd all_pattern2) ys"
      "s = concat xs @ s1" "s1 = concat ys @ s2" by blast
  from m(1) obtain ds w1 w2 where
    "xs = [ustr ''pnpm/action-setup@v'', ds, w1, ustr ''with:'', w2, ustr ''version:'']"
    "ds \<noteq> []" "list_all (in_cls Digit) ds" "w1 \<noteq> []" "list_all (in_cls Space) w1"
    "w2 \<noteq> []" "list_all (in_cls Space) w2"
    by (auto simp: all_pattern2_def list_all2_Cons1)
  then have "ds \<noteq> [] \<and> list_all unicode_decimal ds \<and>
        w1 \<noteq> [] \<and> list_all unicode_space w1 \<and> w2 \<noteq> [] \<and> list_all unicode_space w2 \<and>
        concat xs = ustr ''pnpm/action-setup@v'' @ ds @ w1 @ ustr ''with:'' @ w2 @ ustr ''version:''"
    by (simp add: list_all_iff)
  then have "all_window (concat xs)"
    unfolding all_window_def by blast
  moreover from m(2) obtain ws where "list_all unicode_space ws" "concat ys = ws @ [57]"
    by (auto simp: all_pattern2_def list_all2_Cons1 ustr_def list_all_iff)
  ultimately show ?thesis using m(3,4) by auto
qed

lemma upd_pattern_match:
  assumes "match_at upd_pattern s = Some (s1, s2)"
  shows "\<exists>g ws. upd_window g \<and> list_all unicode_space ws \<and> s = g @ s1 \<and> s1 = ws @ 56 # s2"
proof -
  from match_at_sound [OF assms] obtain xs ys where
    m: "list_all2 atom_lang (fst upd_pattern) xs" "list_all2 atom_lang (snd upd_pattern) ys"
      "s = concat xs @ s1" "s1 = concat ys @ s2" by blast
  from m(1) obtain w1 w2 where
    "xs = [ustr ''uses: pnpm/action-setup@v2'', w1, ustr ''with:'', w2, ustr ''version:'']"
    "w1 \<noteq> []" "list_all (in_cls Space) w1" "w2 \<noteq> []" "list_all (in_cls Space) w2"
    by (auto simp: upd_pattern_def list_all2_Cons1)
  then have "w1 \<noteq> [] \<and> list_all unicode_space w1 \<and> w2 \<noteq> [] \<and> list_all unicode_space w2 \<and>
        concat xs = ustr ''uses: pnpm/action-setup@v2'' @ w1 @ ustr ''with:'' @ w2 @ ustr ''version:''"
    by (simp add: list_all_iff)
  then have "upd_window (concat xs)"
    unfolding upd_window_def by blast
  moreover from m(2) obtain ws where "list_all unicode_space ws" "concat ys = ws @ [56]"
    by (auto simp: upd_pattern_def list_all2_Cons1 ustr_def list_all_iff)
  ultimately show ?thesis using m(3,4) by auto
qed

lemma re_sub_rewritten:
  assumes m: "\<And>s s1 s2. match_at p s = Some (s1, s2) \<Longrightarrow>
                \<exists>g ws. window g \<and> list_all unicode_space ws \<and> s = g @ s1 \<and> s1 = ws @ target # s2"
  shows "rewritten window target s (re_sub p (\<lambda>g. g @ ustr '' 10'') s)"
proof (induction s rule: length_induct)
  case (1 s)
  show ?case
  proof (cases s)
    case Nil
    then show ?thesis by (simp add: rewritten.finish)
  next
    case (Cons c cs)
    have tl: "rewritten window target cs (re_sub p (\<lambda>g. g @ ustr '' 10'') cs)"
      using 1 Cons by simp
    show ?thesis
    proof (cases "match_at p (c # cs)")
      case None
      with tl show ?thesis by (simp add: Cons rewritten.copy)
    next
      case (Some a)
      obtain s1 s2 where a: "a = (s1, s2)" by (cases a)
      from m [of "c # cs" s1 s2] Some a obtain g ws where
        g: "window g" "list_all unicode_space ws" "c # cs = g @ s1" "s1 = ws @ target # s2"
        by blast
      then have len: "length s2 < length (c # cs)"
        by (metis add_Suc_right length_Cons length_append less_Suc_eq_le
            le_add2 trans_le_add2)
      have "rewritten window target s2 (re_sub p (\<lambda>g. g @ ustr '' 10'') s2)"
        using 1 len Cons by simp
      from rewritten.bump [OF g(1) g(2) this] g(3,4)
      have b: "rewritten window target (c # cs)
                 (g @ ustr '' 10'' @ re_sub p (\<lambda>g. g @ ustr '' 10'') s2)" by simp
      have "take (length (c # cs) - length s1) (c # cs) = g"
        using g(3) by (metis add_diff_cancel_right' append_eq_conv_conj length_append)
      with Some a len
      have eq: "re_sub p (\<lambda>g. g @ ustr '' 10'') (c # cs)
                = g @ ustr '' 10'' @ re_sub p (\<lambda>g. g @ ustr '' 10'') s2" by simp
      show ?thesis unfolding Cons eq by (rule b)
    qed
  qed
qed

lemma all_fix2_re_sub:
  "fst (all_fix2 original_content (content, changes))
   = re_sub all_pattern2 (\<lambda>g. g @ ustr '' 10'') content"
  by (auto simp: all_fix2_def re_search_None_re_sub)

text \<open>
  C6. The contextual substitution copies its input character by character, except
  where the whole pattern matches: the anchor (\<open>pnpm/action-setup@v\<close> and digits in
  \<open>fix-all-pnpm-workflows.py\<close>, \<open>uses: pnpm/action-setup@v2\<close> in
  \<open>update-pnpm-version.py\<close>), white space, \<open>with:\<close>, white space, \<open>version:\<close>, optional
  white space and the target digit (\<open>9\<close>, respectively \<open>8\<close>). There the white space and
  the digit become a blank and \<open>10\<close>. Every other occurrence of the digit is copied.
\<close>

theorem contextual_substitution_frame:
  "rewritten all_window 57 content (fst (all_fix2 original_content (content, changes)))
   \<and> rewritten upd_window 56 content (re_sub upd_pattern (\<lambda>g. g @ ustr '' 10'') content)"
  unfolding all_fix2_re_sub
  using re_sub_rewritten [of all_pattern2 all_window 57 content, OF all_pattern2_match]
    re_sub_rewritten [of upd_pattern upd_window 56 content, OF upd_pattern_match]
  by simp

theorem contextual_substitution_frame_witness:
  "rewritten all_window 57
     (ustr ''pnpm/action-setup@v4 with: version: 9 # node: 9'')
     (ustr ''pnpm/action-setup@v4 with: version: 10 # node: 9'')
   \<and> rewritten upd_window 56
     (ustr ''uses: pnpm/action-setup@v2 with: version: 8 # node: 8'')
     (ustr ''uses: pnpm/action-setup@v2 with: version: 10 # node: 8'')"
  using contextual_substitution_frame
    [of "ustr ''pnpm/action-setup@v4 with: version: 9 # node: 9''"
        "ustr ''pnpm/action-setup@v4 with: version: 9 # node: 9''" "[]"]
    contextual_substitution_frame
    [of "ustr ''uses: pnpm/action-setup@v2 with: version: 8 # node: 8''"
        "ustr ''uses: pnpm/action-setup@v2 with: version: 8 # node: 8''" "[]"]
  by (simp add: all_fix2_def all_pattern2_def upd_pattern_def text_eval regex_eval)

subsection \<open>Counting the occurrences of a replaced literal\<close>

lemma prefix_append_cases:
  "prefix y (u @ t) \<Longrightarrow> prefix y u \<or> prefix u y"
  by (auto simp: prefix_append)

lemma prefix_of_append_cases:
  "prefix u (y @ t) \<Longrightarrow> prefix u y \<or> prefix y u"
  by (auto simp: prefix_append)

lemma overlaps_drop:
  "\<not> overlaps x y \<Longrightarrow> 0 < k \<Longrightarrow> k < length x \<Longrightarrow>
   \<not> prefix (drop k x) y \<and> \<not> prefix y (drop k x)"
proof (induction x arbitrary: k)
  case Nil
  then show ?case by simp
next
  case (Cons c cs)
  from Cons.prems obtain k' where k: "k = Suc k'" by (cases k) auto
  show ?case
  proof (cases k')
    case 0
    with k Cons.prems show ?thesis by auto
  next
    case (Suc j)
    with k Cons.prems Cons.IH [of k'] show ?thesis by auto
  qed
qed

lemma no_start_inside:
  assumes "\<not> overlaps x y" and "0 < k" and "k < length x"
  shows "\<not> prefix y (drop k x @ t)" and "\<not> prefix (drop k x) (y @ t)"
  using overlaps_drop [OF assms] prefix_append_cases [of y "drop k x" t]
    prefix_of_append_cases [of "drop k x" y t]
  by auto

lemma occ_skip:
  "(\<And>k. k < length u \<Longrightarrow> \<not> prefix y (drop k u @ t)) \<Longrightarrow> occ y (u @ t) = occ y t"
proof (induction u)
  case Nil
  show ?case by simp
next
  case (Cons c u)
  from Cons.prems [of 0] have "\<not> prefix y (c # u @ t)" by simp
  moreover have "occ y (u @ t) = occ y t"
  proof (rule Cons.IH)
    fix k assume "k < length u"
    with Cons.prems [of "Suc k"] show "\<not> prefix y (drop k u @ t)" by simp
  qed
  ultimately show ?case by simp
qed

lemma occ_across:
  assumes "\<not> overlaps x y" and "x \<noteq> []"
  shows "occ y (x @ t) = (if prefix y (x @ t) then 1 else 0) + occ y t"
proof -
  from assms(2) obtain c cs where x: "x = c # cs" by (cases x) auto
  have "occ y (cs @ t) = occ y t"
  proof (rule occ_skip)
    fix k assume "k < length cs"
    with no_start_inside(1) [OF assms(1), of "Suc k" t] x
    show "\<not> prefix y (drop k cs @ t)" by simp
  qed
  with x show ?thesis by simp
qed

lemma py_replace_Nil: "a \<noteq> [] \<Longrightarrow> py_replace a b [] = []"
  by (simp add: py_replace.simps)

lemma py_replace_match:
  "a \<noteq> [] \<Longrightarrow> py_replace a b (a @ rest) = b @ py_replace a b rest"
  by (subst py_replace.simps) simp

lemma py_replace_skip:
  "a \<noteq> [] \<Longrightarrow> \<not> prefix a (c # cs) \<Longrightarrow> py_replace a b (c # cs) = c # py_replace a b cs"
  by (subst py_replace.simps) simp

lemma prefix_stable:
  assumes "a \<noteq> []" and "\<not> overlaps y a" and "\<not> overlaps y b"
  shows "k < length y \<Longrightarrow> (k = 0 \<Longrightarrow> \<not> prefix a s) \<Longrightarrow>
         prefix (drop k y) (py_replace a b s) \<longleftrightarrow> prefix (drop k y) s"
proof (induction s arbitrary: k)
  case Nil
  with assms(1) show ?case by (simp add: py_replace_Nil)
next
  case (Cons c cs)
  show ?case
  proof (cases "prefix a (c # cs)")
    case True
    with Cons.prems have k: "0 < k" by auto
    from True obtain rest where r: "c # cs = a @ rest" by (auto simp: prefix_def)
    have "\<not> prefix (drop k y) (b @ py_replace a b rest)"
      by (rule no_start_inside(2) [OF assms(3) k Cons.prems(1)])
    moreover have "\<not> prefix (drop k y) (a @ rest)"
      by (rule no_start_inside(2) [OF assms(2) k Cons.prems(1)])
    ultimately show ?thesis
      using r py_replace_match [OF assms(1), of b rest] by simp
  next
    case False
    from Cons.prems(1) obtain d where d: "drop k y = d # drop (Suc k) y"
      by (metis Cons_nth_drop_Suc)
    show ?thesis
    proof (cases "Suc k < length y")
      case True
      from Cons.IH [OF True] have "prefix (drop (Suc k) y) (py_replace a b cs)
                                   \<longleftrightarrow> prefix (drop (Suc k) y) cs" by simp
      with d False show ?thesis by (simp add: py_replace_skip [OF assms(1)])
    next
      case False': False
      then have "drop (Suc k) y = []" by simp
      with d False show ?thesis by (simp add: py_replace_skip [OF assms(1)])
    qed
  qed
qed

lemma prefix_stable0:
  assumes "a \<noteq> []" and "y \<noteq> []" and "\<not> overlaps y a" and "\<not> overlaps y b"
    and "\<not> prefix a s"
  shows "prefix y (py_replace a b s) \<longleftrightarrow> prefix y s"
  using prefix_stable [OF assms(1,3,4), of 0 s] assms(2,5) by simp

lemma py_replace_counts:
  assumes "separate a b"
  shows "occ b (py_replace a b s) = occ a s + occ b s \<and> occ a (py_replace a b s) = 0"
proof (induction s rule: length_induct)
  case (1 s)
  from assms have a: "a \<noteq> []" and b: "b \<noteq> []" and nab: "\<not> prefix a b" and nba: "\<not> prefix b a"
    and oaa: "\<not> overlaps a a" and obb: "\<not> overlaps b b"
    and oab: "\<not> overlaps a b" and oba: "\<not> overlaps b a"
    by (simp_all add: separate_def)
  show ?case
  proof (cases s)
    case Nil
    with a show ?thesis by (simp add: py_replace_Nil)
  next
    case (Cons c cs)
    show ?thesis
    proof (cases "prefix a s")
      case True
      then obtain rest where r: "s = a @ rest" by (auto simp: prefix_def)
      with a have "length rest < length s" by simp
      with 1 have IH: "occ b (py_replace a b rest) = occ a rest + occ b rest"
        "occ a (py_replace a b rest) = 0" by auto
      have n1: "\<not> prefix a (b @ t)" for t
        using prefix_append_cases [of a b t] nab nba by auto
      have n2: "\<not> prefix b (a @ t)" for t
        using prefix_append_cases [of b a t] nab nba by auto
      have "occ b (b @ py_replace a b rest) = 1 + occ b (py_replace a b rest)"
        by (simp add: occ_across [OF obb b])
      moreover have "occ a (b @ py_replace a b rest) = occ a (py_replace a b rest)"
        by (simp add: occ_across [OF oba b] n1)
      moreover have "occ a (a @ rest) = 1 + occ a rest"
        by (simp add: occ_across [OF oaa a])
      moreover have "occ b (a @ rest) = occ b rest"
        by (simp add: occ_across [OF oab a] n2)
      ultimately show ?thesis
        using IH by (simp add: r py_replace_match [OF a])
    next
      case False
      from 1 Cons have IH: "occ b (py_replace a b cs) = occ a cs + occ b cs"
        "occ a (py_replace a b cs) = 0" by auto
      from False Cons have na: "\<not> prefix a (c # cs)" by simp
      have pb: "prefix b (c # py_replace a b cs) \<longleftrightarrow> prefix b (c # cs)"
        using prefix_stable0 [OF a b oba obb na] by (simp add: py_replace_skip [OF a na])
      have pa: "prefix a (c # py_replace a b cs) \<longleftrightarrow> prefix a (c # cs)"
        using prefix_stable0 [OF a a oaa oab na] by (simp add: py_replace_skip [OF a na])
      from IH pa pb na show ?thesis
        by (simp add: Cons py_replace_skip [OF a na])
    qed
  qed
qed

lemma occ_not_py_in: "a \<noteq> [] \<Longrightarrow> \<not> py_in a s \<Longrightarrow> occ a s = 0"
  by (induction s) auto

lemma not_py_in_py_replace: "a \<noteq> [] \<Longrightarrow> \<not> py_in a s \<Longrightarrow> py_replace a b s = s"
  by (induction s) (auto simp: py_replace_Nil py_replace_skip)

lemma match_at_literal:
  "match_at ([], [Lit a]) s = (if prefix a s then Some (s, drop (length a) s) else None)"
  by (simp add: match_at_def)

lemma re_sub_literal:
  assumes "a \<noteq> []"
  shows "re_sub ([], [Lit a]) (\<lambda>g. b) s = py_replace a b s"
proof (induction s rule: length_induct)
  case (1 s)
  show ?case
  proof (cases s)
    case Nil
    with assms show ?thesis by (simp add: py_replace_Nil)
  next
    case (Cons c cs)
    show ?thesis
    proof (cases "prefix a (c # cs)")
      case True
      then obtain rest where r: "c # cs = a @ rest" by (auto simp: prefix_def)
      with assms have l: "length rest < length (c # cs)"
        by (metis length_append length_greater_0_conv less_add_same_cancel2)
      with 1 Cons have IH: "re_sub ([], [Lit a]) (\<lambda>g. b) rest = py_replace a b rest" by simp
      have d: "drop (length a) (c # cs) = rest" by (simp add: r)
      have "re_sub ([], [Lit a]) (\<lambda>g. b) (c # cs) = b @ re_sub ([], [Lit a]) (\<lambda>g. b) rest"
        using True l d by (simp add: match_at_literal del: length_Cons drop_Suc_Cons)
      with IH show ?thesis
        unfolding Cons r by (simp add: py_replace_match [OF assms])
    next
      case False
      from 1 Cons have "re_sub ([], [Lit a]) (\<lambda>g. b) cs = py_replace a b cs" by simp
      with False show ?thesis
        by (simp add: Cons match_at_literal py_replace_skip [OF assms])
    qed
  qed
qed

lemma step_cache_py_replace:
  "fst (step_cache (content, modified)) = py_replace cache_npm cache_pnpm content"
  by (simp add: step_cache_def not_py_in_py_replace cache_npm_def)

lemma all_fix1_py_replace:
  "fst (all_fix1 original_content (content, changes))
   = py_replace (ustr ''pnpm/action-setup@v4'') (ustr ''pnpm/action-setup@v2'') content"
proof -
  have "fst (all_fix1 original_content (content, changes))
        = re_sub all_pattern1 (\<lambda>g. ustr ''pnpm/action-setup@v2'') content"
    by (auto simp: all_fix1_def re_search_None_re_sub)
  then show ?thesis
    unfolding all_pattern1_def by (simp add: re_sub_literal ustr_def)
qed

lemma separate_cache: "separate cache_npm cache_pnpm"
  by (simp add: separate_def text_eval)

lemma separate_action:
  "separate (ustr ''pnpm/action-setup@v4'') (ustr ''pnpm/action-setup@v2'')"
  by (simp add: separate_def text_eval)

text \<open>
  C5, as stated, fails: a text that already holds the replacement has more occurrences
  of it in the output than occurrences of the pattern in the input. With one
  \<open>cache: 'npm'\<close> and one \<open>cache: 'pnpm'\<close> in the input, the output of step 1 of
  \<open>fix_workflow\<close> holds \<open>cache: 'pnpm'\<close> twice.
\<close>

theorem literal_substitution_counterexample:
  "cache_npm \<noteq> cache_pnpm
   \<and> occ cache_npm (cache_npm @ [NL] @ cache_pnpm) = 1
   \<and> fst (step_cache (cache_npm @ [NL] @ cache_pnpm, False)) = cache_pnpm @ [NL] @ cache_pnpm
   \<and> occ cache_pnpm (fst (step_cache (cache_npm @ [NL] @ cache_pnpm, False))) = 2"
  by (simp add: step_cache_def text_eval py_replace.simps)

text \<open>
  C5, amended. For the two literal substitutions of the scripts, \<open>cache: 'npm'\<close> by
  \<open>cache: 'pnpm'\<close> (step 1 of \<open>fix_workflow\<close>) and \<open>pnpm/action-setup@v4\<close> by
  \<open>pnpm/action-setup@v2\<close> (fix 1 of \<open>fix-all-pnpm-workflows.py\<close>): for an input with
  \<open>k\<close> occurrences of the pattern and \<open>j\<close> occurrences of the replacement, the output
  holds \<open>k + j\<close> occurrences of the replacement and no occurrence of the pattern.
\<close>

theorem literal_substitution_counts:
  "occ cache_pnpm (fst (step_cache (content, modified)))
     = occ cache_npm content + occ cache_pnpm content
   \<and> occ cache_npm (fst (step_cache (content, modified))) = 0
   \<and> occ (ustr ''pnpm/action-setup@v2'') (fst (all_fix1 original_content (content, changes)))
     = occ (ustr ''pnpm/action-setup@v4'') content + occ (ustr ''pnpm/action-setup@v2'') content
   \<and> occ (ustr ''pnpm/action-setup@v4'') (fst (all_fix1 original_content (content, changes))) = 0"
  unfolding step_cache_py_replace all_fix1_py_replace
  using py_replace_counts [OF separate_cache, of content]
    py_replace_counts [OF separate_action, of content]
  by simp

theorem literal_substitution_counts_witness:
  "occ cache_npm (cache_npm @ [NL] @ cache_pnpm) = 1
   \<and> occ cache_pnpm (cache_npm @ [NL] @ cache_pnpm) = 1
   \<and> occ cache_pnpm (fst (step_cache (cache_npm @ [NL] @ cache_pnpm, False))) = 2
   \<and> occ cache_npm (fst (step_cache (cache_npm @ [NL] @ cache_pnpm, False))) = 0"
  using literal_substitution_counts [of "cache_npm @ [NL] @ cache_pnpm" False]
  by (simp add: text_eval)

subsection \<open>The marker survives the substitutions\<close>

lemma py_in_prefix: "prefix m s \<Longrightarrow> py_in m s"
  by (cases s) auto

lemma py_in_appendI: "py_in m t \<Longrightarrow> py_in m (x @ t)"
  by (induction x) auto

lemma py_in_append_cases:
  "py_in m (u @ rest) \<Longrightarrow> (\<exists>k<length u. prefix m (drop k u @ rest)) \<or> py_in m rest"
proof (induction u)
  case Nil
  then show ?case by simp
next
  case (Cons c u)
  from Cons.prems have "prefix m (c # u @ rest) \<or> py_in m (u @ rest)" by simp
  then show ?case
  proof
    assume "prefix m (c # u @ rest)"
    then have "\<exists>k<length (c # u). prefix m (drop k (c # u) @ rest)"
      by (intro exI [of _ 0]) simp
    then show ?thesis ..
  next
    assume "py_in m (u @ rest)"
    from Cons.IH [OF this] show ?thesis
    proof
      assume "\<exists>k<length u. prefix m (drop k u @ rest)"
      then obtain k where "k < length u" "prefix m (drop k u @ rest)" by blast
      then have "Suc k < length (c # u) \<and> prefix m (drop (Suc k) (c # u) @ rest)" by simp
      then show ?thesis by blast
    next
      assume "py_in m rest"
      then show ?thesis ..
    qed
  qed
qed

lemma kept_prefix:
  assumes lit: "\<And>s s1 s2. match_at p s = Some (s1, s2) \<Longrightarrow> s = old @ s2"
    and "\<not> overlaps m old"
  shows "k < length m \<Longrightarrow> (k = 0 \<Longrightarrow> match_at p s = None) \<Longrightarrow> prefix (drop k m) s \<Longrightarrow>
         prefix (drop k m) (re_sub p r s)"
proof (induction s arbitrary: k)
  case Nil
  then show ?case by simp
next
  case (Cons c cs)
  show ?case
  proof (cases "match_at p (c # cs)")
    case (Some a)
    obtain s1 s2 where a: "a = (s1, s2)" by (cases a)
    from Some Cons.prems(2) have k: "0 < k" by auto
    from lit [of "c # cs" s1 s2] Some a have "c # cs = old @ s2" by simp
    with Cons.prems(3) no_start_inside(2) [OF assms(2) k Cons.prems(1), of s2]
    show ?thesis by simp
  next
    case None
    from Cons.prems(1) obtain d where d: "drop k m = d # drop (Suc k) m"
      by (metis Cons_nth_drop_Suc)
    show ?thesis
    proof (cases "Suc k < length m")
      case True
      from Cons.prems(3) d have "prefix (drop (Suc k) m) cs" by simp
      from Cons.IH [OF True _ this] have "prefix (drop (Suc k) m) (re_sub p r cs)" by simp
      with Cons.prems(3) d None show ?thesis by simp
    next
      case False
      then have "drop (Suc k) m = []" by simp
      with Cons.prems(3) d None show ?thesis by simp
    qed
  qed
qed

lemma marker_kept:
  assumes lit: "\<And>s s1 s2. match_at p s = Some (s1, s2) \<Longrightarrow> s = old @ s2"
    and old: "old \<noteq> []" and m: "m \<noteq> []"
    and "\<not> prefix m old" and "\<not> prefix old m" and "\<not> overlaps m old" and "\<not> overlaps old m"
  shows "py_in m s \<Longrightarrow> py_in m (re_sub p r s)"
proof (induction s rule: length_induct)
  case (1 s)
  show ?case
  proof (cases s)
    case Nil
    with 1(2) m show ?thesis by simp
  next
    case (Cons c cs)
    show ?thesis
    proof (cases "match_at p (c # cs)")
      case None
      from 1(2) Cons have "prefix m (c # cs) \<or> py_in m cs" by simp
      then show ?thesis
      proof
        assume "prefix m (c # cs)"
        with kept_prefix [OF lit assms(6), where k = 0 and s = "c # cs" and r = r] None m
        have "prefix m (re_sub p r (c # cs))" by simp
        then show ?thesis unfolding Cons by (rule py_in_prefix)
      next
        assume "py_in m cs"
        with 1(1) Cons have "py_in m (re_sub p r cs)" by simp
        with None show ?thesis by (simp add: Cons)
      qed
    next
      case (Some a)
      obtain s1 s2 where a: "a = (s1, s2)" by (cases a)
      from lit [of "c # cs" s1 s2] Some a have s: "c # cs = old @ s2" by simp
      with old have len: "length s2 < length (c # cs)"
        by (metis length_append length_greater_0_conv less_add_same_cancel2)
      from 1(2) Cons s have "py_in m (old @ s2)" by simp
      from py_in_append_cases [OF this] have "py_in m s2"
      proof
        assume "\<exists>k<length old. prefix m (drop k old @ s2)"
        then obtain k where k: "k < length old" "prefix m (drop k old @ s2)" by blast
        show ?thesis
        proof (cases k)
          case 0
          with k(2) prefix_append_cases [of m old s2] assms(4,5) show ?thesis by simp
        next
          case (Suc j)
          with k no_start_inside(1) [OF assms(7), of k s2] show ?thesis by simp
        qed
      qed
      with 1(1) len Cons have "py_in m (re_sub p r s2)" by simp
      then have "py_in m (r (take (length (c # cs) - length s1) (c # cs)) @ re_sub p r s2)"
        by (rule py_in_appendI)
      with Some a len show ?thesis by (simp add: Cons)
    qed
  qed
qed

lemma literal_match: "match_at ([], [Lit old]) s = Some (s1, s2) \<Longrightarrow> s = old @ s2"
  by (auto simp: match_at_literal prefix_def split: if_splits)

lemma eol_match: "match_at ([], [Lit old, Eol]) s = Some (s1, s2) \<Longrightarrow> s = old @ s2"
  by (auto simp: match_at_eol prefix_def split: if_splits)

lemma steps_keep_marker:
  assumes "has_pnpm_setup content"
  shows "has_pnpm_setup (fst (step_npm_install (step_npm_ci (step_cache (content, False)))))"
proof -
  let ?m = "ustr ''pnpm/action-setup''"
  obtain c1 m1 where s1: "step_cache (content, False) = (c1, m1)" by (metis prod.exhaust)
  obtain c2 m2 where s2: "step_npm_ci (c1, m1) = (c2, m2)" by (metis prod.exhaust)
  have "c1 = re_sub ([], [Lit cache_npm]) (\<lambda>g. cache_pnpm) content"
    using step_cache_py_replace [of content False] s1
    by (simp add: re_sub_literal cache_npm_def)
  moreover have "py_in ?m (re_sub ([], [Lit cache_npm]) (\<lambda>g. cache_pnpm) content)"
    by (rule marker_kept [where old = cache_npm, OF literal_match])
      (use assms in \<open>simp_all add: has_pnpm_setup_def text_eval\<close>)
  ultimately have 1: "py_in ?m c1" by simp
  have "c2 = re_sub npm_ci_pattern (\<lambda>g. ustr ''run: pnpm install --frozen-lockfile'') c1"
    using step_npm_ci_re_sub [of c1 m1] s2 by simp
  moreover have "py_in ?m (re_sub npm_ci_pattern
                   (\<lambda>g. ustr ''run: pnpm install --frozen-lockfile'') c1)"
    unfolding npm_ci_pattern_def
    by (rule marker_kept [where old = "ustr ''run: npm ci''", OF eol_match])
      (use 1 in \<open>simp_all add: text_eval\<close>)
  ultimately have 2: "py_in ?m c2" by simp
  have "py_in ?m (re_sub npm_install_pattern (\<lambda>g. ustr ''run: pnpm install'') c2)"
    unfolding npm_install_pattern_def
    by (rule marker_kept [where old = "ustr ''run: npm install''", OF eol_match])
      (use 2 in \<open>simp_all add: text_eval\<close>)
  then show ?thesis
    using step_npm_install_re_sub [of c2 m2] s1 s2 by (simp add: has_pnpm_setup_def)
qed

text \<open>
  C7. When the marker \<open>pnpm/action-setup\<close> occurs in the text, nothing is inserted,
  whether or not the Setup Node.js anchor matches. Step 4 of \<open>fix_workflow\<close> returns the
  content and the flag it is given as they were and prints nothing; the marker of the
  file's text is still there after steps 1 to 3, so for a file with the marker step 4
  leaves what these steps produced; and \<open>fix_workflow_file\<close> of
  \<open>fix-pnpm-workflows.py\<close> reads the file, writes nothing and answers
  "Already has pnpm setup".
\<close>

theorem marker_blocks_insertion:
  assumes "py_in (ustr ''pnpm/action-setup'') content"
  shows "step_setup (content, modified) w = ((content, modified), w)
         \<and> step_setup (step_npm_install (step_npm_ci (step_cache (content, False)))) w
           = (step_npm_install (step_npm_ci (step_cache (content, False))), w)
         \<and> (files w = Some d \<and> map_of d file_path = Some content \<longrightarrow>
              pnpm_fix_workflow_file file_path w
              = Some ((False, ustr ''Already has pnpm setup''),
                      w\<lparr>trace := trace w @ [Read file_path]\<rparr>))"
proof -
  from assms have h: "has_pnpm_setup content" by (simp add: has_pnpm_setup_def)
  obtain c3 m3 where s: "step_npm_install (step_npm_ci (step_cache (content, False))) = (c3, m3)"
    by (metis prod.exhaust)
  with steps_keep_marker [OF h] have "has_pnpm_setup c3" by simp
  with s assms show ?thesis
    by (simp add: step_setup_def has_pnpm_setup_def pnpm_fix_workflow_file_def read_text_def)
qed

theorem marker_blocks_insertion_witness:
  "py_in (ustr ''pnpm/action-setup'') (ustr ''uses: pnpm/action-setup@v4'')
   \<and> step_setup (ustr ''uses: pnpm/action-setup@v4'', False)
        \<lparr>files = Some [(ustr ''ci.yml'', ustr ''uses: pnpm/action-setup@v4'')], trace = []\<rparr>
     = ((ustr ''uses: pnpm/action-setup@v4'', False),
        \<lparr>files = Some [(ustr ''ci.yml'', ustr ''uses: pnpm/action-setup@v4'')], trace = []\<rparr>)
   \<and> step_setup (step_npm_install (step_npm_ci
        (step_cache (ustr ''uses: pnpm/action-setup@v4'', False))))
        \<lparr>files = Some [(ustr ''ci.yml'', ustr ''uses: pnpm/action-setup@v4'')], trace = []\<rparr>
     = ((ustr ''uses: pnpm/action-setup@v4'', False),
        \<lparr>files = Some [(ustr ''ci.yml'', ustr ''uses: pnpm/action-setup@v4'')], trace = []\<rparr>)
   \<and> pnpm_fix_workflow_file (ustr ''ci.yml'')
        \<lparr>files = Some [(ustr ''ci.yml'', ustr ''uses: pnpm/action-setup@v4'')], trace = []\<rparr>
     = Some ((False, ustr ''Already has pnpm setup''),
             \<lparr>files = Some [(ustr ''ci.yml'', ustr ''uses: pnpm/action-setup@v4'')],
              trace = [Read (ustr ''ci.yml'')]\<rparr>)"
proof -
  have m: "py_in (ustr ''pnpm/action-setup'') (ustr ''uses: pnpm/action-setup@v4'')"
    by (simp add: text_eval)
  show ?thesis
    using m marker_blocks_insertion
      [OF m, of False
          "\<lparr>files = Some [(ustr ''ci.yml'', ustr ''uses: pnpm/action-setup@v4'')], trace = []\<rparr>"
          "[(ustr ''ci.yml'', ustr ''uses: pnpm/action-setup@v4'')]" "ustr ''ci.yml''"]
    by (simp add: step_cache_def step_npm_ci_def step_npm_install_def npm_install_pattern_def
        text_eval regex_eval)
qed

subsection \<open>Further observations\<close>

text \<open>
  \<open>fix_workflow_file\<close> of \<open>fix-all-pnpm-workflows.py\<close> compares the texts: it writes the
  file, once, exactly when the rules changed the text.
\<close>

lemma all_fix_workflow_file_persist:
  assumes "files w = Some d" and "map_of d file_path = Some original_content"
  shows "all_fix_workflow_file file_path w
         = (if fst (all_rules original_content) \<noteq> original_content
            then Some ((True, snd (all_rules original_content)),
                       w\<lparr>files := Some (AList.update file_path (fst (all_rules original_content)) d),
                         trace := trace w @
                           [Read file_path,
                            Write file_path (fst (all_rules original_content))]\<rparr>)
            else Some ((False, []), w\<lparr>trace := trace w @ [Read file_path]\<rparr>))"
  using assms
  by (simp add: all_fix_workflow_file_def read_text_def write_text_def split: prod.splits)

text \<open>
  \<open>add_pnpm_setup\<close> inserts at the start of the match, and the pattern starts with
  \<open>\s+\<close>: the leftmost match starts at the white space that ends the line before the
  Setup Node.js step, so the block is inserted at the end of that line.
\<close>

lemma add_pnpm_setup_position:
  "add_pnpm_setup
     (ustr ''      - run: npm install -g pkg'' @ [NL] @
      ustr ''      - name: Setup Node.js'' @ [NL] @
      ustr ''        uses: actions/setup-node@v4'' @ [NL]) w
   = (ustr ''      - run: npm install -g pkg'' @ gh_PNPM_SETUP @ [NL] @
      ustr ''      - name: Setup Node.js'' @ [NL] @
      ustr ''        uses: actions/setup-node@v4'' @ [NL], w)"
  by (simp add: add_pnpm_setup_def setup_node_pattern_def gh_PNPM_SETUP_def text_eval regex_eval)

text \<open>
  \<open>fix_workflow_file\<close> of \<open>fix-pnpm-workflows.py\<close> on its own output: what it writes
  holds the marker, so a second application writes nothing.
\<close>

lemma re_count_re_sub:
  "0 < re_count p s \<Longrightarrow> \<exists>x g y. re_sub p r s = x @ r g @ y"
proof (induction s rule: length_induct)
  case (1 s)
  show ?case
  proof (cases s)
    case Nil
    with 1(2) show ?thesis by simp
  next
    case (Cons c cs)
    show ?thesis
    proof (cases "match_at p (c # cs)")
      case None
      with 1 Cons obtain x g y where "re_sub p r cs = x @ r g @ y" by auto
      with None have "re_sub p r (c # cs) = (c # x) @ r g @ y" by simp
      then show ?thesis unfolding Cons by blast
    next
      case (Some a)
      obtain s1 s2 where a: "a = (s1, s2)" by (cases a)
      show ?thesis
      proof (cases "length s2 < length (c # cs)")
        case True
        with Some a have "re_sub p r (c # cs)
            = [] @ r (take (length (c # cs) - length s1) (c # cs)) @ re_sub p r s2" by simp
        then show ?thesis unfolding Cons by blast
      next
        case False
        with Some a 1 Cons obtain x g y where "re_sub p r cs = x @ r g @ y" by auto
        with Some a False have "re_sub p r (c # cs) = (c # x) @ r g @ y" by simp
        then show ?thesis unfolding Cons by blast
      qed
    qed
  qed
qed

lemma pnpm_second_application:
  assumes "files w = Some d" and "map_of d file_path = Some content"
    and "pnpm_fix_workflow_file file_path w = Some ((True, message), w')"
    and "files w' = Some d'" and "map_of d' file_path = Some content'"
  shows "pnpm_fix_workflow_file file_path w'
         = Some ((False, ustr ''Already has pnpm setup''),
                 w'\<lparr>trace := trace w' @ [Read file_path]\<rparr>)"
proof -
  let ?new = "re_sub pnpm_pattern (\<lambda>g. pnpm_PNPM_SETUP @ g) content"
  from assms(1-3) have c: "0 < re_count pnpm_pattern content"
    and w': "w' = w\<lparr>files := Some (AList.update file_path ?new d),
                    trace := trace w @ [Read file_path, Write file_path ?new]\<rparr>"
    by (auto simp: pnpm_fix_workflow_file_def read_text_def write_text_def Let_def
        split: if_splits)
  from w' assms(4,5) have "content' = ?new" by (auto simp: update_conv')
  moreover from re_count_re_sub [OF c] obtain x g y
    where "?new = x @ (pnpm_PNPM_SETUP @ g) @ y" by blast
  moreover have "py_in (ustr ''pnpm/action-setup'') (pnpm_PNPM_SETUP @ t)" for t
    by (simp add: pnpm_PNPM_SETUP_def text_eval)
  ultimately have "py_in (ustr ''pnpm/action-setup'') content'"
    by (simp add: py_in_appendI)
  with assms(4,5) show ?thesis
    by (simp add: pnpm_fix_workflow_file_def read_text_def)
qed

subsection \<open>The rules of fix-all-pnpm-workflows.py applied twice\<close>

lemma decimal_not_space: "unicode_decimal c \<Longrightarrow> \<not> unicode_space c"
  by (auto simp: unicode_decimal_def decimal_ranges_def unicode_space_def)

lemma greedy_base: "cont s \<noteq> None \<Longrightarrow> greedy k s cont \<noteq> None"
  by (cases s) (auto split: option.splits)

lemma greedy_complete:
  "list_all (in_cls k) x \<Longrightarrow> cont rest \<noteq> None \<Longrightarrow> greedy k (x @ rest) cont \<noteq> None"
  by (induction x) (auto simp: greedy_base split: option.splits)

lemma m_atom_complete:
  assumes "a \<noteq> Eol" and "atom_lang a x" and "cont rest \<noteq> None"
  shows "m_atom a (x @ rest) cont \<noteq> None"
proof (cases a)
  case (Lit l)
  with assms show ?thesis by simp
next
  case (Many1 k)
  with assms obtain c x' where "x = c # x'" "in_cls k c" "list_all (in_cls k) x'"
    by (cases x) auto
  with Many1 greedy_complete [of k x' cont rest] assms(3) show ?thesis by simp
next
  case (Many0 k)
  with assms greedy_complete [of k x cont rest] show ?thesis by simp
next
  case (Times n k)
  with assms show ?thesis by simp
next
  case Eol
  with assms show ?thesis by simp
qed

lemma m_seq_complete:
  "Eol \<notin> set as \<Longrightarrow> list_all2 atom_lang as xs \<Longrightarrow> cont rest \<noteq> None \<Longrightarrow>
   m_seq as (concat xs @ rest) cont \<noteq> None"
proof (induction as arbitrary: xs)
  case Nil
  then show ?case by simp
next
  case (Cons a as)
  from Cons.prems(2) obtain x xs' where xs: "xs = x # xs'" "atom_lang a x"
    "list_all2 atom_lang as xs'" by (auto simp: list_all2_Cons1)
  from Cons.prems(1) have a: "a \<noteq> Eol" and as: "Eol \<notin> set as" by auto
  from Cons.IH [OF as xs(3) Cons.prems(3)]
  have "m_seq as (concat xs' @ rest) cont \<noteq> None" .
  from m_atom_complete [OF a xs(2), of "\<lambda>s'. m_seq as s' cont" "concat xs' @ rest"] this
  show ?case by (simp add: xs)
qed

lemma all_pattern2_complete:
  assumes "all_window g" and "list_all unicode_space ws"
  shows "match_at all_pattern2 (g @ ws @ 57 # rest) \<noteq> None"
proof -
  from assms(1) obtain ds w1 w2 where g: "ds \<noteq> []" "list_all unicode_decimal ds"
    "w1 \<noteq> []" "list_all unicode_space w1" "w2 \<noteq> []" "list_all unicode_space w2"
    "g = ustr ''pnpm/action-setup@v'' @ ds @ w1 @ ustr ''with:'' @ w2 @ ustr ''version:''"
    by (auto simp: all_window_def)
  let ?xs = "[ustr ''pnpm/action-setup@v'', ds, w1, ustr ''with:'', w2, ustr ''version:'']"
  let ?ys = "[ws, [57]]"
  have 2: "m_seq (snd all_pattern2) (concat ?ys @ rest)
             (\<lambda>s2. Some (concat ?ys @ rest, s2)) \<noteq> None"
    by (rule m_seq_complete)
      (use assms(2) in \<open>simp_all add: all_pattern2_def list_all_iff ustr_def\<close>)
  have "m_seq (fst all_pattern2) (concat ?xs @ (concat ?ys @ rest))
          (\<lambda>s1. m_seq (snd all_pattern2) s1 (\<lambda>s2. Some (s1, s2))) \<noteq> None"
    by (rule m_seq_complete)
      (use g 2 in \<open>simp_all add: all_pattern2_def list_all_iff\<close>)
  with g(7) show ?thesis by (simp add: match_at_def)
qed

lemma all_window_shape:
  assumes "all_window g"
  shows "\<exists>u. g = ustr ''pnpm/action-setup@v'' @ u \<and> 112 \<notin> set u"
proof -
  from assms obtain ds w1 w2 where g: "list_all unicode_decimal ds"
    "list_all unicode_space w1" "list_all unicode_space w2"
    "g = ustr ''pnpm/action-setup@v'' @ ds @ w1 @ ustr ''with:'' @ w2 @ ustr ''version:''"
    by (auto simp: all_window_def)
  have d: "\<not> unicode_decimal 112" and s: "\<not> unicode_space 112"
    by (simp_all add: unicode_decimal_def decimal_ranges_def unicode_space_def)
  from g(1) d have "112 \<notin> set ds" by (auto simp: list_all_iff)
  moreover from g(2) s have "112 \<notin> set w1" by (auto simp: list_all_iff)
  moreover from g(3) s have "112 \<notin> set w2" by (auto simp: list_all_iff)
  ultimately have "112 \<notin> set (ds @ w1 @ ustr ''with:'' @ w2 @ ustr ''version:'')"
    by (simp add: ustr_def)
  with g(4) show ?thesis by blast
qed

lemma run_unique:
  assumes "list_all P a" and "list_all P a'" and "b = [] \<or> \<not> P (hd b)" and "b' = [] \<or> \<not> P (hd b')"
    and "a @ b = a' @ b'"
  shows "a = a' \<and> b = b'"
proof -
  have "takeWhile P (a @ b) = a"
    using assms(1,3) by (cases b) (auto simp: list_all_iff takeWhile_append2)
  moreover have "takeWhile P (a' @ b') = a'"
    using assms(2,4) by (cases b') (auto simp: list_all_iff takeWhile_append2)
  ultimately show ?thesis using assms(5) by auto
qed

lemma all_window_unique:
  assumes "all_window g" and "all_window g'" and "g @ t = g' @ t'"
  shows "g = g' \<and> t = t'"
proof -
  from assms(1) obtain ds w1 w2 where g: "ds \<noteq> []" "list_all unicode_decimal ds"
    "w1 \<noteq> []" "list_all unicode_space w1" "w2 \<noteq> []" "list_all unicode_space w2"
    "g = ustr ''pnpm/action-setup@v'' @ ds @ w1 @ ustr ''with:'' @ w2 @ ustr ''version:''"
    by (auto simp: all_window_def)
  from assms(2) obtain ds' w1' w2' where g': "ds' \<noteq> []" "list_all unicode_decimal ds'"
    "w1' \<noteq> []" "list_all unicode_space w1'" "w2' \<noteq> []" "list_all unicode_space w2'"
    "g' = ustr ''pnpm/action-setup@v'' @ ds' @ w1' @ ustr ''with:'' @ w2' @ ustr ''version:''"
    by (auto simp: all_window_def)
  have sw: "\<not> unicode_space 119" and sv: "\<not> unicode_space 118"
    by (simp_all add: unicode_space_def)
  from g(3,4) have h1: "\<not> unicode_decimal (hd (w1 @ ustr ''with:'' @ w2 @ ustr ''version:'' @ t))"
    by (cases w1) (auto dest: decimal_not_space)
  from g'(3,4) have h1': "\<not> unicode_decimal (hd (w1' @ ustr ''with:'' @ w2' @ ustr ''version:'' @ t'))"
    by (cases w1') (auto dest: decimal_not_space)
  from assms(3) g(7) g'(7)
  have e0: "ds @ (w1 @ ustr ''with:'' @ w2 @ ustr ''version:'' @ t)
            = ds' @ (w1' @ ustr ''with:'' @ w2' @ ustr ''version:'' @ t')" by simp
  from run_unique [OF g(2) g'(2) _ _ e0] h1 h1'
  have ds: "ds = ds'" and e1: "w1 @ (ustr ''with:'' @ w2 @ ustr ''version:'' @ t)
            = w1' @ (ustr ''with:'' @ w2' @ ustr ''version:'' @ t')" by auto
  from run_unique [OF g(4) g'(4) _ _ e1] sw
  have w1: "w1 = w1'" and e2: "w2 @ (ustr ''version:'' @ t) = w2' @ (ustr ''version:'' @ t')"
    by (auto simp: ustr_def)
  from run_unique [OF g(6) g'(6) _ _ e2] sv
  have "w2 = w2'" and "t = t'" by (auto simp: ustr_def)
  with ds w1 g(7) g'(7) show ?thesis by simp
qed

lemma all_pattern2_prefix:
  assumes "match_at all_pattern2 s \<noteq> None"
  shows "prefix (ustr ''pnpm/action-setup@v'') s"
proof -
  from assms obtain s1 s2 where "match_at all_pattern2 s = Some (s1, s2)" by auto
  from all_pattern2_match [OF this] obtain g where "all_window g" "s = g @ s1" by blast
  with all_window_shape [of g] show ?thesis by auto
qed

lemma no_match_after_bump:
  assumes "all_window g"
  shows "match_at all_pattern2 (g @ ustr '' 10'' @ z) = None"
proof (rule ccontr)
  assume "match_at all_pattern2 (g @ ustr '' 10'' @ z) \<noteq> None"
  then obtain s1 s2 where "match_at all_pattern2 (g @ ustr '' 10'' @ z) = Some (s1, s2)" by auto
  from all_pattern2_match [OF this] obtain g' ws where
    m: "all_window g'" "list_all unicode_space ws" "g @ ustr '' 10'' @ z = g' @ ws @ 57 # s2"
    by auto
  from all_window_unique [OF assms m(1) m(3)] have e: "ustr '' 10'' @ z = ws @ 57 # s2" by simp
  have n: "\<not> unicode_space 49" by (simp add: unicode_space_def)
  show False
  proof (cases ws)
    case Nil
    with e show False by (simp add: ustr_def)
  next
    case (Cons a ws')
    show False
    proof (cases ws')
      case Nil
      with e Cons show False by (simp add: ustr_def)
    next
      case (Cons b ws'')
      with e \<open>ws = a # ws'\<close> have "b = 49" by (simp add: ustr_def)
      with m(2) \<open>ws = a # ws'\<close> Cons n show False by simp
    qed
  qed
qed

lemma no_match_inside_bump:
  assumes "all_window g" and "0 < k" and "k < length (g @ ustr '' 10'')"
  shows "match_at all_pattern2 (drop k (g @ ustr '' 10'') @ z) = None"
proof (rule ccontr)
  assume "match_at all_pattern2 (drop k (g @ ustr '' 10'') @ z) \<noteq> None"
  then have p: "prefix (ustr ''pnpm/action-setup@v'') (drop k (g @ ustr '' 10'') @ z)"
    by (rule all_pattern2_prefix)
  from all_window_shape [OF assms(1)] obtain u where
    u: "g = ustr ''pnpm/action-setup@v'' @ u" "112 \<notin> set u" by blast
  have no: "\<not> overlaps (ustr ''pnpm/action-setup@v'') (ustr ''pnpm/action-setup@v'')"
    by (simp add: ustr_def)
  show False
  proof (cases "k < length (ustr ''pnpm/action-setup@v'')")
    case True
    from p u(1) True have "prefix (ustr ''pnpm/action-setup@v'')
        (drop k (ustr ''pnpm/action-setup@v'') @ (u @ ustr '' 10'' @ z))" by simp
    with no_start_inside(1) [OF no assms(2) True] show False by blast
  next
    case False
    define j where "j = k - length (ustr ''pnpm/action-setup@v'')"
    define v where "v = u @ ustr '' 10''"
    have gv: "g @ ustr '' 10'' = ustr ''pnpm/action-setup@v'' @ v" by (simp add: v_def u(1))
    from False have d: "drop k (g @ ustr '' 10'') = drop j v"
      unfolding gv by (simp add: j_def)
    from assms(3) False have "j < length v" unfolding gv by (simp add: j_def)
    then obtain c r where cr: "drop j v = c # r"
      by (metis Cons_nth_drop_Suc)
    then have "c \<in> set v" by (metis in_set_dropD list.set_intros(1))
    with u(2) have "c \<noteq> 112" by (auto simp: v_def ustr_def)
    moreover from p have "prefix (ustr ''pnpm/action-setup@v'') (c # r @ z)"
      unfolding d cr by simp
    ultimately show False by (simp add: ustr_def)
  qed
qed

lemma match_within:
  assumes x: "x \<noteq> []" and g: "all_window g"
    and m: "match_at all_pattern2 (x @ g @ z) \<noteq> None"
  shows "match_at all_pattern2 (x @ z') \<noteq> None"
proof -
  from m obtain s1 s2 where "match_at all_pattern2 (x @ g @ z) = Some (s1, s2)" by auto
  from all_pattern2_match [OF this] obtain g' ws where
    m': "all_window g'" "list_all unicode_space ws" "x @ g @ z = g' @ ws @ 57 # s2" by auto
  from all_window_shape [OF g] obtain u where
    u: "g = ustr ''pnpm/action-setup@v'' @ u" "112 \<notin> set u" by blast
  from all_window_shape [OF m'(1)] obtain u' where
    u': "g' = ustr ''pnpm/action-setup@v'' @ u'" "112 \<notin> set u'" by blast
  let ?a = "ustr ''pnpm/action-setup@v''"
  let ?m = "g' @ ws @ [57]"
  define v where "v = u' @ ws @ [57]"
  have mv: "?m = ?a @ v" by (simp add: v_def u'(1))
  have s112: "\<not> unicode_space 112" by (simp add: unicode_space_def)
  with m'(2) have ws: "112 \<notin> set ws" by (auto simp: list_all_iff)
  with u'(2) have v112: "112 \<notin> set v" by (simp add: v_def)
  have no: "\<not> overlaps ?a ?a" by (simp add: ustr_def)
  have e: "x @ g @ z = ?m @ s2" using m'(3) by simp
  have len: "length ?m \<le> length x"
  proof (rule ccontr)
    assume "\<not> length ?m \<le> length x"
    then have lt: "length x < length ?m" by simp
    from e have "drop (length x) (x @ g @ z) = drop (length x) (?m @ s2)" by simp
    with lt have d: "g @ z = drop (length x) ?m @ s2" by simp
    show False
    proof (cases "length x < length ?a")
      case True
      from x have k: "0 < length x" by simp
      from True have "drop (length x) (?a @ v) = drop (length x) ?a @ v" by simp
      with d have "g @ z = drop (length x) ?a @ (v @ s2)" unfolding mv by simp
      then have "prefix (drop (length x) ?a) (?a @ (u @ z))"
        unfolding u(1) by (metis append.assoc prefixI)
      with no_start_inside(2) [OF no k True] show False by blast
    next
      case False
      define j where "j = length x - length ?a"
      from False have dj: "drop (length x) (?a @ v) = drop j v" by (simp add: j_def)
      from lt False have "j < length v" unfolding mv by (simp add: j_def)
      then obtain c r where cr: "drop j v = c # r"
        by (metis Cons_nth_drop_Suc)
      then have "c \<in> set v" by (metis in_set_dropD list.set_intros(1))
      with v112 have "c \<noteq> 112" by auto
      moreover from d have "g @ z = c # r @ s2" unfolding mv dj cr by simp
      ultimately show False unfolding u(1) by (simp add: ustr_def)
    qed
  qed
  with e obtain x2 where "x = ?m @ x2"
    by (metis append_eq_append_conv_if append_take_drop_id)
  then have "x @ z' = g' @ ws @ 57 # (x2 @ z')" by simp
  with all_pattern2_complete [OF m'(1,2), of "x2 @ z'"] show ?thesis by simp
qed

lemma re_sub_all_pattern2_match:
  assumes "match_at all_pattern2 s = Some (s1, s2)"
  shows "\<exists>g ws. all_window g \<and> list_all unicode_space ws \<and> s = g @ ws @ 57 # s2 \<and>
           length s2 < length s \<and>
           re_sub all_pattern2 (\<lambda>g. g @ ustr '' 10'') s
           = g @ ustr '' 10'' @ re_sub all_pattern2 (\<lambda>g. g @ ustr '' 10'') s2"
proof -
  from all_pattern2_match [OF assms] obtain g ws where
    g: "all_window g" "list_all unicode_space ws" "s = g @ s1" "s1 = ws @ 57 # s2" by blast
  from g(3,4) have "s \<noteq> []" by simp
  then obtain c cs where s: "s = c # cs" by (cases s) auto
  from g(3,4) have len: "length s2 < length s" by simp
  have "take (length s - length s1) s = g" using g(3) by simp
  with assms len have "re_sub all_pattern2 (\<lambda>g. g @ ustr '' 10'') s
      = g @ ustr '' 10'' @ re_sub all_pattern2 (\<lambda>g. g @ ustr '' 10'') s2"
    unfolding s by simp
  with g len show ?thesis by blast
qed

lemma no_match_before:
  "x \<noteq> [] \<Longrightarrow> match_at all_pattern2 (x @ y) = None \<Longrightarrow>
   match_at all_pattern2 (x @ re_sub all_pattern2 (\<lambda>g. g @ ustr '' 10'') y) = None"
proof (induction y arbitrary: x rule: length_induct)
  case (1 y)
  show ?case
  proof (cases y)
    case Nil
    with 1(3) show ?thesis by simp
  next
    case (Cons c cs)
    show ?thesis
    proof (cases "match_at all_pattern2 (c # cs)")
      case None
      from 1(3) Cons have "match_at all_pattern2 ((x @ [c]) @ cs) = None" by simp
      with 1(1) [rule_format, of cs "x @ [c]"] Cons
      have "match_at all_pattern2 ((x @ [c]) @ re_sub all_pattern2 (\<lambda>g. g @ ustr '' 10'') cs)
            = None" by simp
      with None show ?thesis by (simp add: Cons)
    next
      case (Some a)
      obtain s1 s2 where "a = (s1, s2)" by (cases a)
      with Some Cons have "match_at all_pattern2 y = Some (s1, s2)" by simp
      from re_sub_all_pattern2_match [OF this] obtain g ws where
        g: "all_window g" "re_sub all_pattern2 (\<lambda>g. g @ ustr '' 10'') y
              = g @ ustr '' 10'' @ re_sub all_pattern2 (\<lambda>g. g @ ustr '' 10'') s2" by blast
      show ?thesis
      proof (rule ccontr)
        assume "match_at all_pattern2 (x @ re_sub all_pattern2 (\<lambda>g. g @ ustr '' 10'') y) \<noteq> None"
        with g(2) have "match_at all_pattern2
            (x @ g @ (ustr '' 10'' @ re_sub all_pattern2 (\<lambda>g. g @ ustr '' 10'') s2)) \<noteq> None"
          by simp
        from match_within [OF 1(2) g(1) this, of y] 1(3) show False by simp
      qed
    qed
  qed
qed

lemma re_search_append_None:
  "(\<And>k. k < length u \<Longrightarrow> match_at p (drop k u @ z) = None) \<Longrightarrow> re_search p z = None \<Longrightarrow>
   re_search p (u @ z) = None"
proof (induction u)
  case Nil
  then show ?case by simp
next
  case (Cons c u)
  from Cons.prems(1) [of 0] have 0: "match_at p (c # u @ z) = None" by simp
  have "re_search p (u @ z) = None"
  proof (rule Cons.IH)
    fix k assume "k < length u"
    with Cons.prems(1) [of "Suc k"] show "match_at p (drop k u @ z) = None" by simp
  qed (rule Cons.prems(2))
  with 0 show ?case by simp
qed

lemma re_search_re_sub_all_pattern2:
  "re_search all_pattern2 (re_sub all_pattern2 (\<lambda>g. g @ ustr '' 10'') s) = None"
proof (induction s rule: length_induct)
  case (1 s)
  show ?case
  proof (cases s)
    case Nil
    then show ?thesis by (simp add: match_at_def all_pattern2_def ustr_def)
  next
    case (Cons c cs)
    show ?thesis
    proof (cases "match_at all_pattern2 (c # cs)")
      case None
      with no_match_before [of "[c]" cs]
      have "match_at all_pattern2 (c # re_sub all_pattern2 (\<lambda>g. g @ ustr '' 10'') cs) = None"
        by simp
      moreover from 1 Cons
      have "re_search all_pattern2 (re_sub all_pattern2 (\<lambda>g. g @ ustr '' 10'') cs) = None"
        by simp
      ultimately show ?thesis using None by (simp add: Cons)
    next
      case (Some a)
      obtain s1 s2 where "a = (s1, s2)" by (cases a)
      with Some Cons have "match_at all_pattern2 s = Some (s1, s2)" by simp
      from re_sub_all_pattern2_match [OF this] obtain g ws where
        g: "all_window g" "length s2 < length s"
          "re_sub all_pattern2 (\<lambda>g. g @ ustr '' 10'') s
           = (g @ ustr '' 10'') @ re_sub all_pattern2 (\<lambda>g. g @ ustr '' 10'') s2" by auto
      from 1 g(2)
      have IH: "re_search all_pattern2 (re_sub all_pattern2 (\<lambda>g. g @ ustr '' 10'') s2) = None"
        by simp
      show ?thesis
        unfolding g(3)
      proof (rule re_search_append_None [OF _ IH])
        fix k assume k: "k < length (g @ ustr '' 10'')"
        show "match_at all_pattern2
                (drop k (g @ ustr '' 10'') @ re_sub all_pattern2 (\<lambda>g. g @ ustr '' 10'') s2)
              = None"
        proof (cases k)
          case 0
          with no_match_after_bump [OF g(1)] show ?thesis by simp
        next
          case (Suc j)
          with no_match_inside_bump [OF g(1) _ k] show ?thesis by simp
        qed
      qed
    qed
  qed
qed

lemma prefix_before_blank: "32 \<notin> set y \<Longrightarrow> prefix y (x @ 32 # z) \<Longrightarrow> prefix y x"
proof -
  assume y: "32 \<notin> set y" and "prefix y (x @ 32 # z)"
  then consider "prefix y x" | us where "y = x @ us" "prefix us (32 # z)"
    by (auto simp: prefix_append)
  then show ?thesis
  proof cases
    case 1
    then show ?thesis .
  next
    case 2
    with y show ?thesis by (cases us) auto
  qed
qed

lemma rewritten_prefix:
  "rewritten window target s t \<Longrightarrow> 32 \<notin> set y \<Longrightarrow> prefix y t \<Longrightarrow> prefix y s"
proof (induction arbitrary: y rule: rewritten.induct)
  case finish
  then show ?case by simp
next
  case (copy s t c)
  then show ?case by (cases y) auto
next
  case (bump g ws s t)
  from bump.prems have "prefix y (g @ 32 # (49 # 48 # t))" by (simp add: ustr_def)
  from prefix_before_blank [OF bump.prems(1) this] show ?case by (rule prefix_prefix)
qed

lemma py_in_drop: "prefix y (drop k s) \<Longrightarrow> k \<le> length s \<Longrightarrow> py_in y s"
proof (induction s arbitrary: k)
  case Nil
  then show ?case by simp
next
  case (Cons c s)
  then show ?case by (cases k) auto
qed

lemma rewritten_py_in:
  assumes "32 \<notin> set y" and "y \<noteq> []" and "hd y \<noteq> 49" and "hd y \<noteq> 48"
  shows "rewritten window target s t \<Longrightarrow> py_in y t \<Longrightarrow> py_in y s"
proof (induction rule: rewritten.induct)
  case finish
  then show ?case by simp
next
  case (copy s t c)
  from copy.prems have "prefix y (c # t) \<or> py_in y t" by simp
  then show ?case
  proof
    assume "prefix y (c # t)"
    with rewritten_prefix [OF rewritten.copy [OF copy.hyps], of y c] assms(1)
    have "prefix y (c # s)" by simp
    then show ?thesis by (rule py_in_prefix)
  next
    assume "py_in y t"
    with copy.IH show ?thesis by simp
  qed
next
  case (bump g ws s t)
  from bump.prems have "py_in y (g @ (32 # 49 # 48 # t))" by (simp add: ustr_def)
  from py_in_append_cases [OF this] show ?case
  proof
    assume "\<exists>k<length g. prefix y (drop k g @ 32 # 49 # 48 # t)"
    then obtain k where k: "k < length g" "prefix y (drop k g @ 32 # 49 # 48 # t)" by blast
    from prefix_before_blank [OF assms(1) k(2)]
    have "prefix y (drop k g @ (ws @ target # s))" by (rule prefix_prefix)
    with k(1) have "prefix y (drop k (g @ ws @ target # s))" by simp
    with k(1) show ?thesis by (intro py_in_drop [of y k]) simp_all
  next
    assume "py_in y (32 # 49 # 48 # t)"
    with assms have "py_in y t" by (cases y) auto
    with bump.IH have "py_in y s" by simp
    then have "py_in y ((g @ ws @ [target]) @ s)" by (rule py_in_appendI)
    then show ?thesis by simp
  qed
qed

lemma occ_zero_not_py_in: "a \<noteq> [] \<Longrightarrow> occ a s = 0 \<Longrightarrow> \<not> py_in a s"
  by (induction s) (auto split: if_splits)

lemma not_py_in_re_search: "\<not> py_in a s \<Longrightarrow> re_search ([], [Lit a]) s = None"
  by (induction s) (auto simp: match_at_literal)

lemma all_rules_fst:
  "fst (all_rules s)
   = re_sub all_pattern2 (\<lambda>g. g @ ustr '' 10'')
       (py_replace (ustr ''pnpm/action-setup@v4'') (ustr ''pnpm/action-setup@v2'') s)"
proof -
  obtain c ch where 1: "all_fix1 s (s, []) = (c, ch)" by (metis prod.exhaust)
  with all_fix1_py_replace [of s s "[]"]
  have "c = py_replace (ustr ''pnpm/action-setup@v4'') (ustr ''pnpm/action-setup@v2'') s" by simp
  with 1 all_fix2_re_sub [of s c ch] show ?thesis by (simp add: all_rules_def)
qed

text \<open>
  The rules of \<open>fix-all-pnpm-workflows.py\<close> applied to their own output change nothing
  and report no change, so \<open>fix_workflow_file\<close> reads the file, writes nothing and
  returns \<open>False\<close>, which \<open>main\<close> reports as "no changes needed".
\<close>

lemma all_rules_twice: "all_rules (fst (all_rules s)) = (fst (all_rules s), [])"
proof -
  let ?v4 = "ustr ''pnpm/action-setup@v4''"
  let ?p = "py_replace ?v4 (ustr ''pnpm/action-setup@v2'') s"
  let ?t = "re_sub all_pattern2 (\<lambda>g. g @ ustr '' 10'') ?p"
  have v4: "?v4 \<noteq> []" "32 \<notin> set ?v4" "hd ?v4 \<noteq> 49" "hd ?v4 \<noteq> 48"
    by (simp_all add: ustr_def)
  from py_replace_counts [OF separate_action, of s] have "occ ?v4 ?p = 0" by simp
  from occ_zero_not_py_in [OF v4(1) this] have "\<not> py_in ?v4 ?p" .
  with rewritten_py_in [OF v4(2) v4(1) v4(3) v4(4)
      re_sub_rewritten [of all_pattern2 all_window 57 ?p, OF all_pattern2_match]]
  have "\<not> py_in ?v4 ?t" by blast
  then have 1: "re_search all_pattern1 ?t = None"
    unfolding all_pattern1_def by (rule not_py_in_re_search)
  have 2: "re_search all_pattern2 ?t = None" by (rule re_search_re_sub_all_pattern2)
  from 1 2 show ?thesis
    unfolding all_rules_fst by (simp add: all_rules_def all_fix1_def all_fix2_def)
qed

lemma all_second_application:
  assumes "files w = Some d" and "map_of d file_path = Some (fst (all_rules original_content))"
  shows "all_fix_workflow_file file_path w
         = Some ((False, []), w\<lparr>trace := trace w @ [Read file_path]\<rparr>)"
  using all_fix_workflow_file_persist [OF assms] by (simp add: all_rules_twice)

subsection \<open>The version bump on a file that holds the step\<close>

lemma all_pattern2_determined:
  assumes "all_window g" and "list_all unicode_space ws"
  shows "match_at all_pattern2 (g @ ws @ 57 # rest) = Some (ws @ 57 # rest, rest)"
proof -
  from all_pattern2_complete [OF assms, of rest] obtain a b
    where m: "match_at all_pattern2 (g @ ws @ 57 # rest) = Some (a, b)" by auto
  from all_pattern2_match [OF m] obtain g' ws' where
    g': "all_window g'" "list_all unicode_space ws'" "g @ ws @ 57 # rest = g' @ a"
      "a = ws' @ 57 # b" by blast
  from all_window_unique [OF assms(1) g'(1) g'(3)] g'(4)
  have e: "ws @ 57 # rest = ws' @ 57 # b" by simp
  have "\<not> unicode_space 57" by (simp add: unicode_space_def)
  with run_unique [OF assms(2) g'(2) _ _ e] have "ws = ws'" "57 # rest = 57 # b" by auto
  with m g'(4) show ?thesis by simp
qed

lemma match_extends:
  assumes "match_at all_pattern2 t = Some (s1, s2)"
  shows "match_at all_pattern2 (t @ y) = Some (s1 @ y, s2 @ y)"
proof -
  from all_pattern2_match [OF assms] obtain g ws where
    g: "all_window g" "list_all unicode_space ws" "t = g @ s1" "s1 = ws @ 57 # s2" by blast
  from all_pattern2_determined [OF g(1,2), of "s2 @ y"] g(3,4) show ?thesis by simp
qed

lemma all_window_tail:
  assumes "all_window g"
  shows "\<exists>u. g = ustr ''pnpm/action-setup@v'' @ u \<and>
             (\<forall>c\<in>set u. unicode_decimal c \<or> unicode_space c \<or> c \<in> set (ustr ''with:version:''))"
proof -
  from assms obtain ds w1 w2 where g: "list_all unicode_decimal ds"
    "list_all unicode_space w1" "list_all unicode_space w2"
    "g = ustr ''pnpm/action-setup@v'' @ ds @ w1 @ ustr ''with:'' @ w2 @ ustr ''version:''"
    by (auto simp: all_window_def)
  from g(1,2,3)
  have "\<forall>c\<in>set (ds @ w1 @ ustr ''with:'' @ w2 @ ustr ''version:'').
          unicode_decimal c \<or> unicode_space c \<or> c \<in> set (ustr ''with:version:'')"
    by (auto simp: list_all_iff ustr_def)
  with g(4) show ?thesis by blast
qed

lemma match_local:
  assumes t: "t \<noteq> []"
    and y0: "y0 \<noteq> []" "\<not> overlaps (ustr ''pnpm/action-setup@v'') y0"
      "\<not> unicode_decimal (hd y0)" "\<not> unicode_space (hd y0)"
      "hd y0 \<notin> set (ustr ''with:version:9'')"
    and m: "match_at all_pattern2 (t @ y0 @ z) = Some (a, b)"
  shows "\<exists>s1 s2. match_at all_pattern2 t = Some (s1, s2) \<and> a = s1 @ y0 @ z \<and> b = s2 @ y0 @ z"
proof -
  from all_pattern2_match [OF m] obtain g ws where
    g: "all_window g" "list_all unicode_space ws" "t @ y0 @ z = g @ a" "a = ws @ 57 # b"
    by blast
  from all_window_tail [OF g(1)] obtain u where
    u: "g = ustr ''pnpm/action-setup@v'' @ u"
      "\<forall>c\<in>set u. unicode_decimal c \<or> unicode_space c \<or> c \<in> set (ustr ''with:version:'')"
    by blast
  let ?a = "ustr ''pnpm/action-setup@v''"
  let ?m = "g @ ws @ [57]"
  define v where "v = u @ ws @ [57]"
  have mv: "?m = ?a @ v" by (simp add: v_def u(1))
  from y0(1) obtain c0 y1 where yc: "y0 = c0 # y1" by (cases y0) auto
  from u(2) g(2) have vs: "\<forall>c\<in>set v. unicode_decimal c \<or> unicode_space c
        \<or> c \<in> set (ustr ''with:version:9'')"
    by (auto simp: v_def list_all_iff ustr_def)
  with y0(3,4,5) yc have c0: "c0 \<notin> set v" by auto
  have e: "t @ y0 @ z = ?m @ b" using g(3,4) by simp
  have len: "length ?m \<le> length t"
  proof (rule ccontr)
    assume "\<not> length ?m \<le> length t"
    then have lt: "length t < length ?m" by simp
    from e have "drop (length t) (t @ y0 @ z) = drop (length t) (?m @ b)" by simp
    with lt have d: "y0 @ z = drop (length t) ?m @ b" by simp
    show False
    proof (cases "length t < length ?a")
      case True
      from t have k: "0 < length t" by simp
      from True have "drop (length t) (?a @ v) = drop (length t) ?a @ v" by simp
      with d have "y0 @ z = drop (length t) ?a @ (v @ b)" unfolding mv by simp
      then have "prefix (drop (length t) ?a) (y0 @ z)" by (metis prefixI)
      with no_start_inside(2) [OF y0(2) k True] show False by blast
    next
      case False
      define j where "j = length t - length ?a"
      from False have dj: "drop (length t) (?a @ v) = drop j v" by (simp add: j_def)
      from lt False have "j < length v" unfolding mv by (simp add: j_def)
      then obtain c r where cr: "drop j v = c # r"
        by (metis Cons_nth_drop_Suc)
      then have "c \<in> set v" by (metis in_set_dropD list.set_intros(1))
      with c0 have "c \<noteq> c0" by auto
      moreover from d have "y0 @ z = c # r @ b" unfolding mv dj cr by simp
      ultimately show False unfolding yc by simp
    qed
  qed
  with e obtain t2 where t2: "t = ?m @ t2"
    by (metis append_eq_append_conv_if append_take_drop_id)
  with e have b: "b = t2 @ y0 @ z" by simp
  from t2 have "t = g @ ws @ 57 # t2" by simp
  with all_pattern2_determined [OF g(1,2), of t2]
  have "match_at all_pattern2 t = Some (ws @ 57 # t2, t2)" by simp
  with b g(4) show ?thesis by simp
qed

lemma all_pattern2_locality:
  assumes "t \<noteq> []"
    and "y0 \<noteq> []" "\<not> overlaps (ustr ''pnpm/action-setup@v'') y0"
      "\<not> unicode_decimal (hd y0)" "\<not> unicode_space (hd y0)"
      "hd y0 \<notin> set (ustr ''with:version:9'')"
  shows "match_at all_pattern2 (t @ y0 @ z)
         = map_option (\<lambda>(s1, s2). (s1 @ y0 @ z, s2 @ y0 @ z)) (match_at all_pattern2 t)"
proof (cases "match_at all_pattern2 t")
  case (Some a)
  obtain s1 s2 where "a = (s1, s2)" by (cases a)
  with Some match_extends [of t s1 s2 "y0 @ z"] show ?thesis by simp
next
  case None
  have "match_at all_pattern2 (t @ y0 @ z) = None"
  proof (rule ccontr)
    assume "match_at all_pattern2 (t @ y0 @ z) \<noteq> None"
    then obtain a b where "match_at all_pattern2 (t @ y0 @ z) = Some (a, b)" by auto
    from match_local [OF assms this] None show False by simp
  qed
  with None show ?thesis by simp
qed

text \<open>
  A scan splits at a point that no match straddles: when every match that starts in \<open>x\<close>
  is the same with and without the text \<open>y\<close> after it, \<open>re.sub\<close> and the match count of
  \<open>x @ y\<close> are those of \<open>x\<close> and of \<open>y\<close> put together.
\<close>

lemma match_at_suffix:
  assumes "match_at p s = Some (s1, s2)"
  shows "\<exists>j. j \<le> length s \<and> s2 = drop j s \<and> length s1 \<le> length s"
proof -
  from match_at_sound [OF assms] obtain xs ys where
    e: "s = concat xs @ s1" "s1 = concat ys @ s2" by blast
  then have s: "s = (concat xs @ concat ys) @ s2" by simp
  from s have "s2 = drop (length (concat xs @ concat ys)) s"
    by (metis append_eq_conv_conj)
  moreover from s have "length (concat xs @ concat ys) \<le> length s"
    by (metis length_append le_add1)
  moreover from e(1) have "length s1 \<le> length s" by simp
  ultimately show ?thesis by blast
qed

lemma re_sub_append:
  assumes "\<And>k. k < length x \<Longrightarrow>
             match_at p (drop k x @ y)
             = map_option (\<lambda>(s1, s2). (s1 @ y, s2 @ y)) (match_at p (drop k x))"
  shows "re_sub p r (x @ y) = re_sub p r x @ re_sub p r y"
  using assms
proof (induction x rule: length_induct)
  case (1 x)
  show ?case
  proof (cases x)
    case Nil
    then show ?thesis by simp
  next
    case (Cons c cs)
    have loc_cs: "\<And>k. k < length cs \<Longrightarrow>
             match_at p (drop k cs @ y)
             = map_option (\<lambda>(s1, s2). (s1 @ y, s2 @ y)) (match_at p (drop k cs))"
    proof -
      fix k assume "k < length cs"
      with "1.prems" [of "Suc k"] Cons show "match_at p (drop k cs @ y)
             = map_option (\<lambda>(s1, s2). (s1 @ y, s2 @ y)) (match_at p (drop k cs))" by simp
    qed
    from "1.IH" [rule_format, of cs] Cons loc_cs
    have IHcs: "re_sub p r (cs @ y) = re_sub p r cs @ re_sub p r y" by simp
    from "1.prems" [of 0] Cons
    have m0: "match_at p (c # cs @ y)
              = map_option (\<lambda>(s1, s2). (s1 @ y, s2 @ y)) (match_at p (c # cs))" by simp
    show ?thesis
    proof (cases "match_at p (c # cs)")
      case None
      with m0 have "match_at p (c # cs @ y) = None" by simp
      with None IHcs show ?thesis by (simp add: Cons)
    next
      case (Some a)
      obtain s1 s2 where a: "a = (s1, s2)" by (cases a)
      from Some a have m: "match_at p (c # cs) = Some (s1, s2)" by simp
      with m0 have my: "match_at p (c # cs @ y) = Some (s1 @ y, s2 @ y)" by simp
      from match_at_suffix [OF m] obtain j where
        j: "j \<le> length (c # cs)" "s2 = drop j (c # cs)" "length s1 \<le> length (c # cs)"
        by blast
      show ?thesis
      proof (cases "length s2 < length (c # cs)")
        case True
        have loc_s2: "\<And>k. k < length s2 \<Longrightarrow>
             match_at p (drop k s2 @ y)
             = map_option (\<lambda>(s1, s2). (s1 @ y, s2 @ y)) (match_at p (drop k s2))"
        proof -
          fix k assume "k < length s2"
          with j(1,2) have "k + j < length x" unfolding Cons by simp
          from "1.prems" [OF this] j(2) Cons
          show "match_at p (drop k s2 @ y)
             = map_option (\<lambda>(s1, s2). (s1 @ y, s2 @ y)) (match_at p (drop k s2))"
            by (simp add: add.commute)
        qed
        from "1.IH" [rule_format, of s2] True Cons loc_s2
        have IH: "re_sub p r (s2 @ y) = re_sub p r s2 @ re_sub p r y" by simp
        define n where "n = length (c # cs) - length s1"
        have n: "length (c # cs @ y) - length (s1 @ y) = n" using j(3) by (simp add: n_def)
        have tk: "take n (c # cs @ y) = take n (c # cs)"
          by (metis append_Cons diff_le_self n_def take_append take_all_iff
              diff_is_0_eq' append_Nil2 take_0 order_refl)
        from True have Ty: "length (s2 @ y) < length (c # cs @ y)" by simp
        have l: "re_sub p r (c # cs @ y) = r (take n (c # cs @ y)) @ re_sub p r (s2 @ y)"
          by (simp only: re_sub.simps my option.case prod.case Ty if_True n)
        have r: "re_sub p r (c # cs) = r (take n (c # cs)) @ re_sub p r s2"
          by (simp only: re_sub.simps m option.case prod.case True if_True n_def)
        from l r tk IH show ?thesis unfolding Cons by simp
      next
        case False
        then have Fy: "\<not> length (s2 @ y) < length (c # cs @ y)" by simp
        have "re_sub p r (c # cs @ y) = c # re_sub p r (cs @ y)"
          by (simp only: re_sub.simps my option.case prod.case Fy if_False)
        moreover have "re_sub p r (c # cs) = c # re_sub p r cs"
          by (simp only: re_sub.simps m option.case prod.case False if_False)
        ultimately show ?thesis using IHcs unfolding Cons by simp
      qed
    qed
  qed
qed

lemma re_count_append:
  assumes "\<And>k. k < length x \<Longrightarrow>
             match_at p (drop k x @ y)
             = map_option (\<lambda>(s1, s2). (s1 @ y, s2 @ y)) (match_at p (drop k x))"
  shows "re_count p (x @ y) = re_count p x + re_count p y"
  using assms
proof (induction x rule: length_induct)
  case (1 x)
  show ?case
  proof (cases x)
    case Nil
    then show ?thesis by simp
  next
    case (Cons c cs)
    have loc_cs: "\<And>k. k < length cs \<Longrightarrow>
             match_at p (drop k cs @ y)
             = map_option (\<lambda>(s1, s2). (s1 @ y, s2 @ y)) (match_at p (drop k cs))"
    proof -
      fix k assume "k < length cs"
      with "1.prems" [of "Suc k"] Cons show "match_at p (drop k cs @ y)
             = map_option (\<lambda>(s1, s2). (s1 @ y, s2 @ y)) (match_at p (drop k cs))" by simp
    qed
    from "1.IH" [rule_format, of cs] Cons loc_cs
    have IHcs: "re_count p (cs @ y) = re_count p cs + re_count p y" by simp
    from "1.prems" [of 0] Cons
    have m0: "match_at p (c # cs @ y)
              = map_option (\<lambda>(s1, s2). (s1 @ y, s2 @ y)) (match_at p (c # cs))" by simp
    show ?thesis
    proof (cases "match_at p (c # cs)")
      case None
      with m0 have "match_at p (c # cs @ y) = None" by simp
      with None IHcs show ?thesis by (simp add: Cons)
    next
      case (Some a)
      obtain s1 s2 where a: "a = (s1, s2)" by (cases a)
      from Some a have m: "match_at p (c # cs) = Some (s1, s2)" by simp
      with m0 have my: "match_at p (c # cs @ y) = Some (s1 @ y, s2 @ y)" by simp
      from match_at_suffix [OF m] obtain j where
        j: "j \<le> length (c # cs)" "s2 = drop j (c # cs)" "length s1 \<le> length (c # cs)"
        by blast
      show ?thesis
      proof (cases "length s2 < length (c # cs)")
        case True
        have loc_s2: "\<And>k. k < length s2 \<Longrightarrow>
             match_at p (drop k s2 @ y)
             = map_option (\<lambda>(s1, s2). (s1 @ y, s2 @ y)) (match_at p (drop k s2))"
        proof -
          fix k assume "k < length s2"
          with j(1,2) have "k + j < length x" unfolding Cons by simp
          from "1.prems" [OF this] j(2) Cons
          show "match_at p (drop k s2 @ y)
             = map_option (\<lambda>(s1, s2). (s1 @ y, s2 @ y)) (match_at p (drop k s2))"
            by (simp add: add.commute)
        qed
        from "1.IH" [rule_format, of s2] True Cons loc_s2
        have IH: "re_count p (s2 @ y) = re_count p s2 + re_count p y" by simp
        from True have Ty: "length (s2 @ y) < length (c # cs @ y)" by simp
        have l: "re_count p (c # cs @ y) = Suc (re_count p (s2 @ y))"
          by (simp only: re_count.simps my option.case prod.case Ty if_True)
        have r: "re_count p (c # cs) = Suc (re_count p s2)"
          by (simp only: re_count.simps m option.case prod.case True if_True)
        from l r IH show ?thesis unfolding Cons by simp
      next
        case False
        then have Fy: "\<not> length (s2 @ y) < length (c # cs @ y)" by simp
        have "re_count p (c # cs @ y) = re_count p (cs @ y)"
          by (simp only: re_count.simps my option.case prod.case Fy if_False)
        moreover have "re_count p (c # cs) = re_count p cs"
          by (simp only: re_count.simps m option.case prod.case False if_False)
        ultimately show ?thesis using IHcs unfolding Cons by simp
      qed
    qed
  qed
qed

lemma re_sub_skip:
  "(\<And>k. k < length u \<Longrightarrow> match_at p (drop k u @ y) = None)
   \<Longrightarrow> re_sub p r (u @ y) = u @ re_sub p r y"
proof (induction u)
  case Nil
  show ?case by simp
next
  case (Cons c u)
  from Cons.prems [of 0] have "match_at p (c # u @ y) = None" by simp
  moreover have "re_sub p r (u @ y) = u @ re_sub p r y"
  proof (rule Cons.IH)
    fix k assume "k < length u"
    with Cons.prems [of "Suc k"] show "match_at p (drop k u @ y) = None" by simp
  qed
  ultimately show ?case by simp
qed

lemma re_count_skip:
  "(\<And>k. k < length u \<Longrightarrow> match_at p (drop k u @ y) = None)
   \<Longrightarrow> re_count p (u @ y) = re_count p y"
proof (induction u)
  case Nil
  show ?case by simp
next
  case (Cons c u)
  from Cons.prems [of 0] have "match_at p (c # u @ y) = None" by simp
  moreover have "re_count p (u @ y) = re_count p y"
  proof (rule Cons.IH)
    fix k assume "k < length u"
    with Cons.prems [of "Suc k"] show "match_at p (drop k u @ y) = None" by simp
  qed
  ultimately show ?case by simp
qed

lemma re_search_found:
  "k \<le> length s \<Longrightarrow> match_at p (drop k s) \<noteq> None \<Longrightarrow> re_search p s \<noteq> None"
proof (induction s arbitrary: k)
  case Nil
  then show ?case by auto
next
  case (Cons c s)
  show ?case
  proof (cases k)
    case 0
    with Cons.prems show ?thesis by auto
  next
    case (Suc n)
    with Cons.prems Cons.IH [of n] show ?thesis by (auto split: option.splits)
  qed
qed

lemma straddle_free:
  assumes "\<not> overlaps a y0" and "t \<noteq> []" and "prefix a (t @ y0 @ z)"
  shows "prefix a t"
proof (rule ccontr)
  assume n: "\<not> prefix a t"
  with assms(3) obtain us where us: "a = t @ us" "prefix us (y0 @ z)"
    by (auto simp: prefix_append)
  from n us(1) have "us \<noteq> []" by auto
  with us(1) assms(2) have k: "0 < length t" "length t < length a" by auto
  from us(1) have "drop (length t) a = us" by simp
  with no_start_inside(2) [OF assms(1) k, of z] us(2) show False by simp
qed

lemma literal_locality:
  assumes "\<And>t. t \<noteq> [] \<Longrightarrow> prefix a (t @ y) \<Longrightarrow> prefix a t" and "k < length x"
  shows "match_at ([], [Lit a]) (drop k x @ y)
         = map_option (\<lambda>(s1, s2). (s1 @ y, s2 @ y)) (match_at ([], [Lit a]) (drop k x))"
proof -
  define t where "t = drop k x"
  from assms(2) have t: "t \<noteq> []" by (simp add: t_def)
  show ?thesis
  proof (cases "prefix a t")
    case True
    then have "length a \<le> length t" by (rule prefix_length_le)
    with True show ?thesis
      unfolding t_def [symmetric] by (simp add: match_at_literal prefix_prefix)
  next
    case False
    with assms(1) [OF t] have "\<not> prefix a (t @ y)" by blast
    with False show ?thesis
      unfolding t_def [symmetric] by (simp add: match_at_literal)
  qed
qed

lemma py_replace_append:
  assumes "a \<noteq> []" and "\<And>t. t \<noteq> [] \<Longrightarrow> prefix a (t @ y) \<Longrightarrow> prefix a t"
  shows "py_replace a b (x @ y) = py_replace a b x @ py_replace a b y"
  using re_sub_append [of x "([], [Lit a])" y "\<lambda>g. b", OF literal_locality [of a y, OF assms(2)]]
  by (simp add: re_sub_literal [OF assms(1)])

lemma literal_count_append:
  assumes "\<And>t. t \<noteq> [] \<Longrightarrow> prefix a (t @ y) \<Longrightarrow> prefix a t"
  shows "re_count ([], [Lit a]) (x @ y) = re_count ([], [Lit a]) x + re_count ([], [Lit a]) y"
  using re_count_append [of x "([], [Lit a])" y, OF literal_locality [of a y, OF assms]]
  by simp

lemma literal_skip:
  assumes "a \<noteq> []" and "hd a \<notin> set u" and "k < length u"
  shows "match_at ([], [Lit a]) (drop k u @ y) = None"
proof -
  from assms(3) obtain c r where cr: "drop k u = c # r" by (metis Cons_nth_drop_Suc)
  then have "c \<in> set u" by (metis in_set_dropD list.set_intros(1))
  with assms(2) have "hd a \<noteq> c" by auto
  with assms(1) have "\<not> prefix a (c # r @ y)" by (cases a) auto
  then show ?thesis unfolding cr by (simp add: match_at_literal)
qed

lemma literal_count_match:
  assumes "a \<noteq> []"
  shows "re_count ([], [Lit a]) (a @ rest) = Suc (re_count ([], [Lit a]) rest)"
proof -
  from assms obtain c cs where s: "a @ rest = c # cs" by (cases a) auto
  have m: "match_at ([], [Lit a]) (c # cs) = Some (c # cs, rest)"
    unfolding s [symmetric] by (simp add: match_at_literal)
  from assms have l: "length rest < length (c # cs)" unfolding s [symmetric] by simp
  show ?thesis
    unfolding s by (simp only: re_count.simps m option.case prod.case l if_True)
qed

lemma all_pattern2_skip:
  assumes "112 \<notin> set u" and "k < length u"
  shows "match_at all_pattern2 (drop k u @ y) = None"
proof (rule ccontr)
  assume "match_at all_pattern2 (drop k u @ y) \<noteq> None"
  from all_pattern2_prefix [OF this]
  have p: "prefix (ustr ''pnpm/action-setup@v'') (drop k u @ y)" .
  from assms(2) obtain c r where cr: "drop k u = c # r" by (metis Cons_nth_drop_Suc)
  then have "c \<in> set u" by (metis in_set_dropD list.set_intros(1))
  with assms(1) have "c \<noteq> 112" by auto
  with p show False unfolding cr by (simp add: ustr_def)
qed

lemma all_pattern2_at_window:
  assumes "all_window g" and "list_all unicode_space ws"
  shows "re_sub all_pattern2 (\<lambda>g. g @ ustr '' 10'') (g @ ws @ 57 # rest)
         = g @ ustr '' 10'' @ re_sub all_pattern2 (\<lambda>g. g @ ustr '' 10'') rest"
    and "re_count all_pattern2 (g @ ws @ 57 # rest) = Suc (re_count all_pattern2 rest)"
proof -
  note m = all_pattern2_determined [OF assms, of rest]
  from re_sub_all_pattern2_match [OF m] obtain g' ws' where
    g': "all_window g'" "list_all unicode_space ws'" "g @ ws @ 57 # rest = g' @ ws' @ 57 # rest"
      "re_sub all_pattern2 (\<lambda>g. g @ ustr '' 10'') (g @ ws @ 57 # rest)
       = g' @ ustr '' 10'' @ re_sub all_pattern2 (\<lambda>g. g @ ustr '' 10'') rest" by blast
  from all_window_unique [OF assms(1) g'(1) g'(3)] have "g = g'" by simp
  with g'(4) show "re_sub all_pattern2 (\<lambda>g. g @ ustr '' 10'') (g @ ws @ 57 # rest)
         = g @ ustr '' 10'' @ re_sub all_pattern2 (\<lambda>g. g @ ustr '' 10'') rest" by simp
  obtain c cs where s: "g @ ws @ 57 # rest = c # cs"
    by (cases "g @ ws @ 57 # rest") auto
  have l: "length rest < length (c # cs)" unfolding s [symmetric] by simp
  from m have m': "match_at all_pattern2 (c # cs) = Some (ws @ 57 # rest, rest)"
    unfolding s .
  show "re_count all_pattern2 (g @ ws @ 57 # rest) = Suc (re_count all_pattern2 rest)"
    unfolding s by (simp only: re_count.simps m' option.case prod.case l if_True)
qed

lemma step_window:
  assumes "w1 \<noteq> []" "list_all unicode_space w1" "w2 \<noteq> []" "list_all unicode_space w2"
    and "unicode_decimal d"
  shows "all_window (ustr ''pnpm/action-setup@v'' @ [d] @ w1 @ ustr ''with:'' @ w2 @
                     ustr ''version:'')"
proof -
  from assms have "[d] \<noteq> [] \<and> list_all unicode_decimal [d] \<and>
        w1 \<noteq> [] \<and> list_all unicode_space w1 \<and> w2 \<noteq> [] \<and> list_all unicode_space w2 \<and>
        ustr ''pnpm/action-setup@v'' @ [d] @ w1 @ ustr ''with:'' @ w2 @ ustr ''version:''
        = ustr ''pnpm/action-setup@v'' @ [d] @ w1 @ ustr ''with:'' @ w2 @ ustr ''version:''"
    by simp
  then show ?thesis unfolding all_window_def by blast
qed

lemma all_rules_no_v4: "\<not> py_in (ustr ''pnpm/action-setup@v4'') (fst (all_rules s))"
proof -
  let ?v4 = "ustr ''pnpm/action-setup@v4''"
  let ?p = "py_replace ?v4 (ustr ''pnpm/action-setup@v2'') s"
  have v4: "?v4 \<noteq> []" "32 \<notin> set ?v4" "hd ?v4 \<noteq> 49" "hd ?v4 \<noteq> 48"
    by (simp_all add: ustr_def)
  from py_replace_counts [OF separate_action, of s] have "occ ?v4 ?p = 0" by simp
  from occ_zero_not_py_in [OF v4(1) this] have "\<not> py_in ?v4 ?p" .
  with rewritten_py_in [OF v4(2) v4(1) v4(3) v4(4)
      re_sub_rewritten [of all_pattern2 all_window 57 ?p, OF all_pattern2_match]]
  show ?thesis unfolding all_rules_fst by blast
qed

lemma py_replace_skip_free:
  assumes "a \<noteq> []" and "hd a \<notin> set u"
  shows "py_replace a b (u @ y) = u @ py_replace a b y"
  using re_sub_skip [of u "([], [Lit a])" y "\<lambda>g. b", OF literal_skip [OF assms]]
  by (simp add: re_sub_literal [OF assms(1)])

lemma literal_count_skip:
  assumes "a \<noteq> []" and "hd a \<notin> set u"
  shows "re_count ([], [Lit a]) (u @ y) = re_count ([], [Lit a]) y"
  using re_count_skip [of u "([], [Lit a])" y, OF literal_skip [OF assms]] by simp

text \<open>
  The rules of \<open>fix-all-pnpm-workflows.py\<close> on a text that holds the step: the text
  before the step and the text after it are rewritten as they would be alone, the
  action reference becomes \<open>@v2\<close>, the white space and the \<open>9\<close> after \<open>version:\<close>
  become a blank and \<open>10\<close>, and each count is one more than the matches of its pattern
  before and after the step.
\<close>

lemma all_rules_step:
  assumes w: "w1 \<noteq> []" "list_all unicode_space w1" "w2 \<noteq> []" "list_all unicode_space w2"
    and ws: "list_all unicode_space ws"
  shows "all_rules (pre @ ustr ''uses: '' @ ustr ''pnpm/action-setup@v4'' @
                    (w1 @ ustr ''with:'' @ w2 @ ustr ''version:'') @ ws @ 57 # post)
         = (fst (all_rules pre) @ ustr ''uses: '' @ ustr ''pnpm/action-setup@v2'' @
            (w1 @ ustr ''with:'' @ w2 @ ustr ''version:'') @ ustr '' 10'' @ fst (all_rules post),
            [ustr ''Updated action version v4 '' @ [8594] @ ustr '' v2 ('' @
             show_nat (re_count all_pattern1 pre + 1 + re_count all_pattern1 post) @
             ustr '' occurrences)'',
             ustr ''Updated pnpm version 9 '' @ [8594] @ ustr '' 10 ('' @
             show_nat (re_count all_pattern2 pre + 1 + re_count all_pattern2 post) @
             ustr '' occurrences)''])"
proof -
  let ?U = "ustr ''uses: ''"
  let ?A = "ustr ''pnpm/action-setup@v''"
  let ?V4 = "ustr ''pnpm/action-setup@v4''"
  let ?V2 = "ustr ''pnpm/action-setup@v2''"
  define mid where "mid = w1 @ ustr ''with:'' @ w2 @ ustr ''version:''"
  define P where "P = py_replace ?V4 ?V2"
  define R where "R = re_sub all_pattern2 (\<lambda>g. g @ ustr '' 10'')"
  define content where "content = pre @ ?U @ ?V4 @ mid @ ws @ 57 # post"
  have V4: "?V4 = ?A @ [52]" and V2: "?V2 = ?A @ [50]" by (simp_all add: ustr_def)
  have ne: "?V4 \<noteq> []" by (simp add: ustr_def)
  have hdU: "hd ?V4 \<notin> set ?U" by (simp add: ustr_def)
  have U112: "112 \<notin> set ?U" by (simp add: ustr_def)
  have o1: "\<not> overlaps ?V4 ?U" by (simp add: ustr_def)
  have o2: "\<not> overlaps ?A ?U" by (simp add: ustr_def)
  have U: "?U \<noteq> []" "\<not> unicode_decimal (hd ?U)" "\<not> unicode_space (hd ?U)"
    "hd ?U \<notin> set (ustr ''with:version:9'')"
    by (simp_all add: ustr_def unicode_decimal_def decimal_ranges_def unicode_space_def)
  have d52: "unicode_decimal 52" and d50: "unicode_decimal 50"
    by (simp_all add: unicode_decimal_def decimal_ranges_def)
  have s112: "\<not> unicode_space 112" by (simp add: unicode_space_def)
  from step_window [OF w d52] have win4: "all_window (?V4 @ mid)" by (simp add: V4 mid_def)
  from step_window [OF w d50] have win2: "all_window (?V2 @ mid)" by (simp add: V2 mid_def)
  from w(2,4) ws s112 have "112 \<notin> set w1" "112 \<notin> set w2" "112 \<notin> set ws"
    by (auto simp: list_all_iff)
  then have m112: "112 \<notin> set (mid @ ws @ [57])" by (simp add: mid_def ustr_def)
  then have hdm: "hd ?V4 \<notin> set (mid @ ws @ [57])" by (simp add: ustr_def)
  have sf: "\<And>t z. t \<noteq> [] \<Longrightarrow> prefix ?V4 (t @ ?U @ z) \<Longrightarrow> prefix ?V4 t"
    by (rule straddle_free [OF o1])
  have loc: "\<And>x k z. k < length x \<Longrightarrow>
      match_at all_pattern2 (drop k x @ ?U @ z)
      = map_option (\<lambda>(s1, s2). (s1 @ ?U @ z, s2 @ ?U @ z)) (match_at all_pattern2 (drop k x))"
  proof -
    fix x :: str and k z assume "k < length x"
    then have "drop k x \<noteq> []" by simp
    from all_pattern2_locality [OF this U(1) o2 U(2,3,4)]
    show "match_at all_pattern2 (drop k x @ ?U @ z)
      = map_option (\<lambda>(s1, s2). (s1 @ ?U @ z, s2 @ ?U @ z)) (match_at all_pattern2 (drop k x))" .
  qed

  have P1: "P content = P pre @ P (?U @ ?V4 @ mid @ ws @ 57 # post)"
    unfolding content_def P_def by (rule py_replace_append [OF ne sf])
  have P2: "P (?U @ ?V4 @ mid @ ws @ 57 # post) = ?U @ P (?V4 @ mid @ ws @ 57 # post)"
    unfolding P_def by (rule py_replace_skip_free [OF ne hdU])
  have P3: "P (?V4 @ mid @ ws @ 57 # post) = ?V2 @ P ((mid @ ws @ [57]) @ post)"
    unfolding P_def using py_replace_match [OF ne, of ?V2 "mid @ ws @ 57 # post"] by simp
  have P4: "P ((mid @ ws @ [57]) @ post) = (mid @ ws @ [57]) @ P post"
    unfolding P_def by (rule py_replace_skip_free [OF ne hdm])
  from P1 P2 P3 P4 have Pc: "P content = P pre @ ?U @ (?V2 @ mid) @ ws @ 57 # P post" by simp

  have R1: "R (P pre @ ?U @ (?V2 @ mid) @ ws @ 57 # P post)
            = R (P pre) @ R (?U @ (?V2 @ mid) @ ws @ 57 # P post)"
    unfolding R_def by (rule re_sub_append [OF loc])
  have R2: "R (?U @ (?V2 @ mid) @ ws @ 57 # P post) = ?U @ R ((?V2 @ mid) @ ws @ 57 # P post)"
    unfolding R_def by (rule re_sub_skip [OF all_pattern2_skip [OF U112]])
  have R3: "R ((?V2 @ mid) @ ws @ 57 # P post) = (?V2 @ mid) @ ustr '' 10'' @ R (P post)"
    unfolding R_def by (rule all_pattern2_at_window(1) [OF win2 ws])
  have fst_rules: "\<And>s. fst (all_rules s) = R (P s)"
    unfolding R_def P_def by (rule all_rules_fst)
  from Pc R1 R2 R3 have result: "R (P content)
      = fst (all_rules pre) @ ?U @ ?V2 @ mid @ ustr '' 10'' @ fst (all_rules post)"
    by (simp add: fst_rules)

  have N1: "re_count all_pattern1 content
            = re_count all_pattern1 pre + re_count all_pattern1 (?U @ ?V4 @ mid @ ws @ 57 # post)"
    unfolding content_def all_pattern1_def by (rule literal_count_append [OF sf])
  have N2: "re_count all_pattern1 (?U @ ?V4 @ mid @ ws @ 57 # post)
            = re_count all_pattern1 (?V4 @ mid @ ws @ 57 # post)"
    unfolding all_pattern1_def by (rule literal_count_skip [OF ne hdU])
  have N3: "re_count all_pattern1 (?V4 @ mid @ ws @ 57 # post)
            = Suc (re_count all_pattern1 ((mid @ ws @ [57]) @ post))"
    unfolding all_pattern1_def
    using literal_count_match [OF ne, of "mid @ ws @ 57 # post"] by simp
  have N4: "re_count all_pattern1 ((mid @ ws @ [57]) @ post) = re_count all_pattern1 post"
    unfolding all_pattern1_def by (rule literal_count_skip [OF ne hdm])
  from N1 N2 N3 N4 have count1: "re_count all_pattern1 content
      = re_count all_pattern1 pre + 1 + re_count all_pattern1 post" by simp

  have D1: "re_count all_pattern2 (pre @ ?U @ (?V4 @ mid) @ ws @ 57 # post)
            = re_count all_pattern2 pre + re_count all_pattern2 (?U @ (?V4 @ mid) @ ws @ 57 # post)"
    by (rule re_count_append [OF loc])
  have D2: "re_count all_pattern2 (?U @ (?V4 @ mid) @ ws @ 57 # post)
            = re_count all_pattern2 ((?V4 @ mid) @ ws @ 57 # post)"
    by (rule re_count_skip [OF all_pattern2_skip [OF U112]])
  have D3: "re_count all_pattern2 ((?V4 @ mid) @ ws @ 57 # post)
            = Suc (re_count all_pattern2 post)"
    by (rule all_pattern2_at_window(2) [OF win4 ws])
  from D1 D2 D3 have count2: "re_count all_pattern2 content
      = re_count all_pattern2 pre + 1 + re_count all_pattern2 post"
    by (simp add: content_def)

  have "drop (length (pre @ ?U)) ((pre @ ?U) @ ?V4 @ mid @ ws @ 57 # post)
        = ?V4 @ mid @ ws @ 57 # post" by (rule append_eq_conv_conj [THEN iffD1, THEN conjunct2, symmetric]) simp
  then have dr1: "drop (length (pre @ ?U)) content = ?V4 @ mid @ ws @ 57 # post"
    by (simp add: content_def)
  have "match_at all_pattern1 (?V4 @ mid @ ws @ 57 # post) \<noteq> None"
    by (simp add: all_pattern1_def match_at_literal)
  with dr1 have "match_at all_pattern1 (drop (length (pre @ ?U)) content) \<noteq> None" by simp
  moreover have "length (pre @ ?U) \<le> length content" by (simp add: content_def)
  ultimately have search1: "re_search all_pattern1 content \<noteq> None"
    by (rule re_search_found [rotated])

  have "drop (length (P pre @ ?U)) ((P pre @ ?U) @ (?V2 @ mid) @ ws @ 57 # P post)
        = (?V2 @ mid) @ ws @ 57 # P post" by (rule append_eq_conv_conj [THEN iffD1, THEN conjunct2, symmetric]) simp
  then have dr2: "drop (length (P pre @ ?U)) (P content) = (?V2 @ mid) @ ws @ 57 # P post"
    by (simp add: Pc)
  from all_pattern2_determined [OF win2 ws, of "P post"]
  have "match_at all_pattern2 ((?V2 @ mid) @ ws @ 57 # P post) \<noteq> None" by simp
  with dr2 have "match_at all_pattern2 (drop (length (P pre @ ?U)) (P content)) \<noteq> None"
    by simp
  moreover have "length (P pre @ ?U) \<le> length (P content)" by (simp add: Pc)
  ultimately have search2: "re_search all_pattern2 (P content) \<noteq> None"
    by (rule re_search_found [rotated])

  have lit: "re_sub all_pattern1 (\<lambda>g. ?V2) content = P content"
    unfolding all_pattern1_def P_def by (rule re_sub_literal [OF ne])
  from search1 lit have f1: "all_fix1 content (content, [])
      = (P content,
         [ustr ''Updated action version v4 '' @ [8594] @ ustr '' v2 ('' @
          show_nat (re_count all_pattern1 content) @ ustr '' occurrences)''])"
    by (simp add: all_fix1_def)
  from search2 have f2: "\<And>ch. all_fix2 content (P content, ch)
      = (R (P content),
         ch @ [ustr ''Updated pnpm version 9 '' @ [8594] @ ustr '' 10 ('' @
               show_nat (re_count all_pattern2 content) @ ustr '' occurrences)''])"
    by (simp add: all_fix2_def R_def)
  have "all_rules content
        = (R (P content),
           [ustr ''Updated action version v4 '' @ [8594] @ ustr '' v2 ('' @
            show_nat (re_count all_pattern1 content) @ ustr '' occurrences)'',
            ustr ''Updated pnpm version 9 '' @ [8594] @ ustr '' 10 ('' @
            show_nat (re_count all_pattern2 content) @ ustr '' occurrences)''])"
    unfolding all_rules_def f1 f2 by simp
  then show ?thesis
    unfolding result count1 count2 unfolding content_def mid_def .
qed

text \<open>
  C4, amended. Take a file of \<open>fix-all-pnpm-workflows.py\<close> whose text holds the step
  anywhere: some text \<open>pre\<close>, then \<open>uses: pnpm/action-setup@v4\<close>, white space, \<open>with:\<close>,
  white space, \<open>version:\<close>, white space or none, \<open>9\<close>, then some text \<open>post\<close>. The rules
  give the rewriting of \<open>pre\<close>, then the step with \<open>uses: pnpm/action-setup@v2\<close>, the same
  white space around \<open>with:\<close>, and \<open>version: 10\<close>, then the rewriting of \<open>post\<close>. They
  report "Updated action version v4 -> v2 (n occurrences)" and "Updated pnpm version
  9 -> 10 (m occurrences)" (with the arrow U+2192), where \<open>n\<close> and \<open>m\<close> are one more than
  the matches of the respective pattern in \<open>pre\<close> and \<open>post\<close>. \<open>fix_workflow_file\<close> reads
  the file, writes the new text once and returns \<open>True\<close> with the two changes.
\<close>

theorem version_bump_scenario:
  assumes "w1 \<noteq> []" and "list_all unicode_space w1"
    and "w2 \<noteq> []" and "list_all unicode_space w2"
    and "list_all unicode_space ws"
    and "content = pre @ ustr ''uses: pnpm/action-setup@v4'' @ w1 @ ustr ''with:'' @ w2 @
                   ustr ''version:'' @ ws @ ustr ''9'' @ post"
    and "files w = Some d" and "map_of d file_path = Some content"
  shows "let new_content = fst (all_rules pre) @ ustr ''uses: pnpm/action-setup@v2'' @ w1 @
                           ustr ''with:'' @ w2 @ ustr ''version: 10'' @ fst (all_rules post);
             changes =
               [ustr ''Updated action version v4 '' @ [8594] @ ustr '' v2 ('' @
                show_nat (re_count all_pattern1 pre + 1 + re_count all_pattern1 post) @
                ustr '' occurrences)'',
                ustr ''Updated pnpm version 9 '' @ [8594] @ ustr '' 10 ('' @
                show_nat (re_count all_pattern2 pre + 1 + re_count all_pattern2 post) @
                ustr '' occurrences)'']
         in all_rules content = (new_content, changes)
            \<and> all_fix_workflow_file file_path w
              = Some ((True, changes),
                      w\<lparr>files := Some (AList.update file_path new_content d),
                        trace := trace w @ [Read file_path, Write file_path new_content]\<rparr>)"
proof -
  let ?v4 = "ustr ''pnpm/action-setup@v4''"
  have e1: "ustr ''uses: pnpm/action-setup@v4'' = ustr ''uses: '' @ ?v4"
    and e2: "ustr ''uses: pnpm/action-setup@v2'' = ustr ''uses: '' @ ustr ''pnpm/action-setup@v2''"
    and e3: "ustr ''version: 10'' = ustr ''version:'' @ ustr '' 10''"
    and e4: "ustr ''9'' = [57]"
    by (simp_all add: ustr_def)
  from assms(6) have c: "content = pre @ ustr ''uses: '' @ ?v4 @
      (w1 @ ustr ''with:'' @ w2 @ ustr ''version:'') @ ws @ 57 # post"
    unfolding e1 e4 by simp
  note r = all_rules_step [OF assms(1-5), of pre post, folded c]
  have "py_in ?v4 (?v4 @ (w1 @ ustr ''with:'' @ w2 @ ustr ''version:'') @ ws @ 57 # post)"
    by (rule py_in_prefix) simp
  then have "py_in ?v4 content"
    unfolding c using py_in_appendI [of ?v4 _ "pre @ ustr ''uses: ''"] by simp
  with all_rules_no_v4 [of content] have "fst (all_rules content) \<noteq> content" by auto
  with all_fix_workflow_file_persist [OF assms(7,8)] r show ?thesis
    unfolding Let_def e2 e3 by simp
qed

theorem version_bump_scenario_witness:
  "[NL] @ ustr ''        '' \<noteq> [] \<and> list_all unicode_space ([NL] @ ustr ''        '')
   \<and> [NL] @ ustr ''          '' \<noteq> [] \<and> list_all unicode_space ([NL] @ ustr ''          '')
   \<and> list_all unicode_space (ustr '' '')
   \<and> gh_PNPM_SETUP
     = (ustr ''      - name: Install pnpm'' @ [NL] @ ustr ''        '') @
       ustr ''uses: pnpm/action-setup@v4'' @ ([NL] @ ustr ''        '') @ ustr ''with:'' @
       ([NL] @ ustr ''          '') @ ustr ''version:'' @ ustr '' '' @ ustr ''9'' @ [NL, NL]
   \<and> files \<lparr>files = Some [(ustr ''ci.yml'', gh_PNPM_SETUP)], trace = []\<rparr>
     = Some [(ustr ''ci.yml'', gh_PNPM_SETUP)]
   \<and> map_of [(ustr ''ci.yml'', gh_PNPM_SETUP)] (ustr ''ci.yml'') = Some gh_PNPM_SETUP
   \<and> all_rules gh_PNPM_SETUP
     = (ustr ''      - name: Install pnpm'' @ [NL] @
        ustr ''        uses: pnpm/action-setup@v2'' @ [NL] @
        ustr ''        with:'' @ [NL] @
        ustr ''          version: 10'' @ [NL] @ [NL],
        [ustr ''Updated action version v4 '' @ [8594] @ ustr '' v2 (1 occurrences)'',
         ustr ''Updated pnpm version 9 '' @ [8594] @ ustr '' 10 (1 occurrences)''])
   \<and> all_fix_workflow_file (ustr ''ci.yml'')
        \<lparr>files = Some [(ustr ''ci.yml'', gh_PNPM_SETUP)], trace = []\<rparr>
     = Some ((True,
              [ustr ''Updated action version v4 '' @ [8594] @ ustr '' v2 (1 occurrences)'',
               ustr ''Updated pnpm version 9 '' @ [8594] @ ustr '' 10 (1 occurrences)'']),
             \<lparr>files = Some [(ustr ''ci.yml'',
                               ustr ''      - name: Install pnpm'' @ [NL] @
                               ustr ''        uses: pnpm/action-setup@v2'' @ [NL] @
                               ustr ''        with:'' @ [NL] @
                               ustr ''          version: 10'' @ [NL] @ [NL])],
              trace = [Read (ustr ''ci.yml''),
                       Write (ustr ''ci.yml'')
                         (ustr ''      - name: Install pnpm'' @ [NL] @
                          ustr ''        uses: pnpm/action-setup@v2'' @ [NL] @
                          ustr ''        with:'' @ [NL] @
                          ustr ''          version: 10'' @ [NL] @ [NL])]\<rparr>)"
  using version_bump_scenario
    [of "[NL] @ ustr ''        ''" "[NL] @ ustr ''          ''" "ustr '' ''" gh_PNPM_SETUP
        "ustr ''      - name: Install pnpm'' @ [NL] @ ustr ''        ''" "[NL, NL]"
        "\<lparr>files = Some [(ustr ''ci.yml'', gh_PNPM_SETUP)], trace = []\<rparr>"
        "[(ustr ''ci.yml'', gh_PNPM_SETUP)]" "ustr ''ci.yml''"]
  by (simp add: Let_def gh_PNPM_SETUP_def all_rules_def all_fix1_def all_fix2_def
      all_pattern1_def all_pattern2_def text_eval regex_eval show_nat.simps)

end
